theory Spec2Isabelle
  imports Main "HOL-Library.Word"
begin

unbundle bit_operations_syntax

section \<open>Scalar types and consensus parameters\<close>

text \<open>
  Heights and amounts are 64-bit unsigned integers; the packed difficulty and the kernel
  multiplier are 32-bit.  \<open>ECC::uintBig\<close> is a 256-bit unsigned integer.
\<close>

type_synonym Height = "64 word"
type_synonym Amount = "64 word"
type_synonym u32 = "32 word"
type_synonym byte = "8 word"
type_synonym uintBig = "256 word"

definition MaxHeight :: Height where
  "MaxHeight = - 1"

text \<open>
  The fields of \<open>Rules\<close> read by the functions below.  The structure is declared in
  \<open>block_crypt.h\<close>; its values are configuration, so every function that calls
  \<open>Rules::get()\<close> takes the rules as an argument.
\<close>

record Rules =
  CoinbaseEmission :: Amount
  MaturityCoinbase :: Height
  MaturityStd :: Height
  AllowPublicUtxos :: bool
  FakePoW :: bool

section \<open>Height arithmetic\<close>

text \<open>
  \<^verbatim>\<open>void HeightAdd(Height& trg, Height val) { trg += val; if (trg < val) trg = Height(-1); }\<close>
\<close>

definition HeightAdd :: "Height \<Rightarrow> Height \<Rightarrow> Height" where
  "HeightAdd trg val = (let trg' = trg + val in if trg' < val then - 1 else trg')"

section \<open>Difficulty: the packed encoding\<close>

text \<open>
  The static constants \<open>s_MantissaBits\<close>, \<open>s_MaxOrder\<close> and \<open>s_Inf\<close> of
  \<open>Difficulty\<close> are declared in \<open>block_crypt.h\<close>; they are parameters here.
\<close>

record Difficulty_consts =
  s_MantissaBits :: nat
  s_MaxOrder :: u32
  s_Inf :: u32

text \<open>
  What the specification says of the constants: the order occupies the bits of the packed
  value above the mantissa, and \<open>s_Inf\<close> is a packed value whose order field is larger
  than \<open>s_MaxOrder\<close>.
\<close>

definition consts_ok :: "Difficulty_consts \<Rightarrow> bool" where
  "consts_ok dc \<longleftrightarrow> s_MaxOrder dc < drop_bit (s_MantissaBits dc) (s_Inf dc)"

text \<open>
  \<open>Difficulty::Pack\<close> returns the new \<open>m_Packed\<close>; \<open>None\<close> is the failing
  assertion \<open>(mantissa >> s_MantissaBits) == 1U\<close>.
\<close>

definition Pack :: "Difficulty_consts \<Rightarrow> u32 \<Rightarrow> u32 \<Rightarrow> u32 option" where
  "Pack dc order mantissa =
     (if order \<le> s_MaxOrder dc then
        (if drop_bit (s_MantissaBits dc) mantissa \<noteq> 1 then None
         else
           let mantissa' = mantissa AND (push_bit (s_MantissaBits dc) 1 - 1)
           in Some (mantissa' OR push_bit (s_MantissaBits dc) order))
      else Some (s_Inf dc))"

text \<open>\<open>Difficulty::Unpack(uint32_t& order, uint32_t& mantissa)\<close> returns the pair.\<close>

definition Unpack :: "Difficulty_consts \<Rightarrow> u32 \<Rightarrow> u32 \<times> u32" where
  "Unpack dc m_Packed =
     (let order = drop_bit (s_MantissaBits dc) m_Packed;
          nLeadingBit = push_bit (s_MantissaBits dc) 1
      in (order, nLeadingBit OR (m_Packed AND (nLeadingBit - 1))))"

text \<open>
  A concrete choice of the constants, used to evaluate the functions: mantissa width 24,
  largest order 231, and \<open>s_Inf\<close> the packed value of order 232 with a zero mantissa.
\<close>

definition beam_consts :: Difficulty_consts where
  "beam_consts = \<lparr>s_MantissaBits = 24, s_MaxOrder = 231, s_Inf = 3892314112\<rparr>"

section \<open>Inputs and outputs\<close>

text \<open>
  \<open>ECC::Point\<close> is the serialised curve point: an x coordinate and a flag.
\<close>

record Point =
  m_X :: uintBig
  m_bQuadraticResidue :: bool

record CommitmentAndMaturity =
  m_Commitment :: Point
  m_Maturity :: Height

type_synonym Input = CommitmentAndMaturity

text \<open>
  \<open>ECC::RangeProof::Public\<close> carries the visible amount \<open>m_Value\<close>; the rest of it,
  and all of \<open>ECC::RangeProof::Confidential\<close>, is opaque to this file.  The two
  \<open>unique_ptr\<close> members of \<open>Output\<close> are options: \<open>None\<close> is the null pointer.
\<close>

record 'pb Public =
  m_Value :: Amount
  m_Opaque :: 'pb

record ('cf, 'pb) Output = CommitmentAndMaturity +
  m_Coinbase :: bool
  m_Incubation :: Height
  m_pConfidential :: "'cf option"
  m_pPublic :: "'pb Public option"

text \<open>
  \<^verbatim>\<open>Height Output::get_MinMaturity(Height h) const {
    HeightAdd(h, m_Coinbase ? Rules::get().MaturityCoinbase : Rules::get().MaturityStd);
    HeightAdd(h, m_Incubation); return h; }\<close>
\<close>

definition get_MinMaturity :: "Rules \<Rightarrow> ('cf, 'pb) Output \<Rightarrow> Height \<Rightarrow> Height" where
  "get_MinMaturity rules out h =
     (let h1 = HeightAdd h (if m_Coinbase out then MaturityCoinbase rules else MaturityStd rules)
      in HeightAdd h1 (m_Incubation out))"

section \<open>The cryptographic primitives\<close>

text \<open>
  The elliptic-curve library (\<open>ECC::\<close>) is not part of this file.  Its operations
  are the fields of a record that every function using them takes as an argument:
  \<^item> \<open>'n\<close> is \<open>ECC::Point::Native\<close>, \<open>'sg\<close> is \<open>ECC::Signature\<close>, \<open>'cf\<close> is
    \<open>ECC::RangeProof::Confidential\<close> and \<open>'pb\<close> the opaque part of
    \<open>ECC::RangeProof::Public\<close>;
  \<^item> \<open>Point_Import\<close> is \<open>Point::Native::Import\<close>: \<open>None\<close> when it returns false;
  \<^item> the two range-proof checks take the proof, the imported commitment and the value the
    oracle was seeded with (\<open>oracle << m_Incubation\<close>);
  \<^item> \<open>Point_cmp\<close>, \<open>Signature_cmp\<close>, \<open>Confidential_cmp\<close> and \<open>Public_cmp\<close> are
    the three-way comparisons \<open>cmp\<close> of \<open>ECC::Point\<close>, \<open>ECC::Signature\<close> and the two
    range proofs.
\<close>

type_synonym Scalar = uintBig
type_synonym Hash = uintBig

datatype HItem = HAmount Amount | HHeight Height | HBool bool | HHash Hash | HPoint Point
  | HU32 u32 | HTimestamp "64 word"

record ('n, 'sg, 'cf, 'pb) ECC =
  Point_Import :: "Point \<Rightarrow> 'n option"
  Point_cmp :: "Point \<Rightarrow> Point \<Rightarrow> int"
  Signature_cmp :: "'sg \<Rightarrow> 'sg \<Rightarrow> int"
  Confidential_cmp :: "'cf \<Rightarrow> 'cf \<Rightarrow> int"
  Public_cmp :: "'pb Public \<Rightarrow> 'pb Public \<Rightarrow> int"
  Confidential_IsValid :: "'cf \<Rightarrow> 'n \<Rightarrow> Height \<Rightarrow> bool"
  Public_IsValid :: "'pb Public \<Rightarrow> 'n \<Rightarrow> Height \<Rightarrow> bool"
  Signature_IsValid :: "'sg \<Rightarrow> Hash \<Rightarrow> 'n \<Rightarrow> bool"
  Point_mul :: "'n \<Rightarrow> u32 \<Rightarrow> 'n"
  G_mul :: "Scalar \<Rightarrow> 'n"
  H_mul :: "Amount \<Rightarrow> 'n"
  H_Big_mul :: "Scalar \<Rightarrow> 'n"
  Hash_Processor :: "HItem list \<Rightarrow> Hash"

section \<open>Output validity\<close>

text \<open>
  \<open>bool Output::IsValid(ECC::Point::Native& comm)\<close>.  The result \<open>Some comm\<close> is the
  return value true together with the imported commitment left in the reference
  argument; \<open>None\<close> is the return value false.
\<close>

definition Output_IsValid ::
  "('n, 'sg, 'cf, 'pb) ECC \<Rightarrow> Rules \<Rightarrow> ('cf, 'pb) Output \<Rightarrow> 'n option" where
  "Output_IsValid ecc rules out =
     (case Point_Import ecc (m_Commitment out) of
        None \<Rightarrow> None
      | Some comm \<Rightarrow>
          (case m_pConfidential out of
             Some conf \<Rightarrow>
               if m_Coinbase out then None
               else if m_pPublic out \<noteq> None then None
               else if Confidential_IsValid ecc conf comm (m_Incubation out) then Some comm
               else None
           | None \<Rightarrow>
               (case m_pPublic out of
                  None \<Rightarrow> None
                | Some pub \<Rightarrow>
                    if \<not> (AllowPublicUtxos rules \<or> m_Coinbase out) then None
                    else if Public_IsValid ecc pub comm (m_Incubation out) then Some comm
                    else None)))"

section \<open>Kernels\<close>

record HeightRange =
  m_Min :: Height
  m_Max :: Height

text \<open>
  A kernel owns its nested kernels and its optional hash lock (the preimage).
\<close>

datatype 'sg TxKernel =
  TxKernel (m_Excess: Point) (m_Multiplier: u32) (m_Signature: 'sg) (m_Fee: Amount)
    (m_Height: HeightRange) (m_pHashLock: "uintBig option") (m_vNested: "'sg TxKernel list")

text \<open>
  \<open>int TxKernel::cmp(const TxKernel& v) const\<close>: the members in the order of the source
  (\<open>CMP_MEMBER_EX\<close> calls the member's own \<open>cmp\<close>, \<open>CMP_MEMBER\<close> uses \<open><\<close> and
  \<open>>\<close>), then the loop over the two nested lists, here \<open>cmp_nested\<close>.
\<close>

fun TxKernel_cmp :: "('n, 'sg, 'cf, 'pb) ECC \<Rightarrow> 'sg TxKernel \<Rightarrow> 'sg TxKernel \<Rightarrow> int"
  and cmp_nested :: "('n, 'sg, 'cf, 'pb) ECC \<Rightarrow> 'sg TxKernel list \<Rightarrow> 'sg TxKernel list \<Rightarrow> int"
  where
  "TxKernel_cmp ecc (TxKernel ex mu sg fee h hl ns) (TxKernel ex' mu' sg' fee' h' hl' ns') =
     (let n = Point_cmp ecc ex ex' in
      if n \<noteq> 0 then n
      else if mu < mu' then - 1 else if mu > mu' then 1
      else let n = Signature_cmp ecc sg sg' in
      if n \<noteq> 0 then n
      else if fee < fee' then - 1 else if fee > fee' then 1
      else if m_Min h < m_Min h' then - 1 else if m_Min h > m_Min h' then 1
      else if m_Max h < m_Max h' then - 1 else if m_Max h > m_Max h' then 1
      else cmp_nested ecc ns ns')"
| "cmp_nested ecc [] [] = 0"
| "cmp_nested ecc [] (y # ys) = - 1"
| "cmp_nested ecc (x # xs) [] = 1"
| "cmp_nested ecc (x # xs) (y # ys) =
     (let n = TxKernel_cmp ecc x y in if n \<noteq> 0 then n else cmp_nested ecc xs ys)"

section \<open>Comparison of inputs and outputs\<close>

text \<open>
  \<open>CommitmentAndMaturity::cmp_CaM\<close>; it also compares an input with an output, which
  extends the same base.
\<close>

definition cmp_CaM ::
  "('n, 'sg, 'cf, 'pb) ECC \<Rightarrow> 'a CommitmentAndMaturity_scheme
     \<Rightarrow> 'b CommitmentAndMaturity_scheme \<Rightarrow> int" where
  "cmp_CaM ecc a v =
     (let n = Point_cmp ecc (m_Commitment a) (m_Commitment v) in
      if n \<noteq> 0 then n
      else if m_Maturity a < m_Maturity v then - 1
      else if m_Maturity a > m_Maturity v then 1
      else 0)"

text \<open>\<open>CMP_PTRS\<close> on two \<open>unique_ptr\<close>s; the result 0 falls through to the next member.\<close>

definition CMP_PTRS :: "('a \<Rightarrow> 'a \<Rightarrow> int) \<Rightarrow> 'a option \<Rightarrow> 'a option \<Rightarrow> int" where
  "CMP_PTRS c a b =
     (case a of
        Some x \<Rightarrow> (case b of None \<Rightarrow> 1 | Some y \<Rightarrow> c x y)
      | None \<Rightarrow> (case b of None \<Rightarrow> 0 | Some y \<Rightarrow> - 1))"

definition Output_cmp ::
  "('n, 'sg, 'cf, 'pb) ECC \<Rightarrow> ('cf, 'pb) Output \<Rightarrow> ('cf, 'pb) Output \<Rightarrow> int" where
  "Output_cmp ecc a v =
     (let n = cmp_CaM ecc a v in
      if n \<noteq> 0 then n
      else if m_Coinbase a < m_Coinbase v then - 1
      else if m_Coinbase a > m_Coinbase v then 1
      else if m_Incubation a < m_Incubation v then - 1
      else if m_Incubation a > m_Incubation v then 1
      else let n = CMP_PTRS (Confidential_cmp ecc) (m_pConfidential a) (m_pConfidential v) in
      if n \<noteq> 0 then n
      else CMP_PTRS (Public_cmp ecc) (m_pPublic a) (m_pPublic v))"

section \<open>Transaction vectors and cut-through inside one transaction\<close>

text \<open>
  The four vectors of a transaction hold \<open>unique_ptr\<close>s: an element is \<open>None\<close> after
  \<open>reset()\<close>.
\<close>

record ('sg, 'cf, 'pb) TxVectors =
  m_vInputs :: "Input option list"
  m_vOutputs :: "('cf, 'pb) Output option list"
  m_vKernelsInput :: "'sg TxKernel option list"
  m_vKernelsOutput :: "'sg TxKernel option list"

datatype fault = NullDereference | IndexOutOfRange | AssertionFailed

definition RebuildVectorWithoutNulls :: "'a option list \<Rightarrow> 'a option list" where
  "RebuildVectorWithoutNulls v = filter (\<lambda>p. p \<noteq> None) v"

text \<open>
  The inner loop of \<open>TxVectors::DeleteIntermediateOutputs\<close>, for one input:
  \<^verbatim>\<open>for (; i1 < m_vOutputs.size(); i1++) {
    Output::Ptr& pOut = m_vOutputs[i1];
    int n = pInp->cmp_CaM(*pOut);
    if (n <= 0) { if (!n) { pInp.reset(); pOut.reset(); nDel++; } break; } }\<close>
  It returns the new \<open>i1\<close> and whether the pair is to be reset; dereferencing a null
  pointer is a fault.
\<close>

function DeleteIntermediateOutputs_inner ::
  "('n, 'sg, 'cf, 'pb) ECC \<Rightarrow> Input option \<Rightarrow> ('cf, 'pb) Output option list \<Rightarrow> nat
     \<Rightarrow> fault + (nat \<times> bool)" where
  "DeleteIntermediateOutputs_inner ecc pInp outs i1 =
     (if i1 < length outs then
        (case (pInp, outs ! i1) of
           (Some inp, Some out) \<Rightarrow>
             (let n = cmp_CaM ecc inp out in
              if n \<le> 0 then Inr (i1, n = 0)
              else DeleteIntermediateOutputs_inner ecc pInp outs (i1 + 1))
         | _ \<Rightarrow> Inl NullDereference)
      else Inr (i1, False))"
  by pat_completeness auto
termination
  by (relation "measure (\<lambda>(ecc, pInp, outs, i1). length outs - i1)") auto

text \<open>The outer loop, over the inputs, from \<open>i0\<close>.\<close>

function DeleteIntermediateOutputs_outer ::
  "('n, 'sg, 'cf, 'pb) ECC \<Rightarrow> Input option list \<Rightarrow> ('cf, 'pb) Output option list
     \<Rightarrow> nat \<Rightarrow> nat \<Rightarrow> nat
     \<Rightarrow> fault + (Input option list \<times> ('cf, 'pb) Output option list \<times> nat)" where
  "DeleteIntermediateOutputs_outer ecc ins outs nDel i1 i0 =
     (if i0 < length ins then
        (case DeleteIntermediateOutputs_inner ecc (ins ! i0) outs i1 of
           Inl e \<Rightarrow> Inl e
         | Inr (i1', True) \<Rightarrow>
             DeleteIntermediateOutputs_outer ecc (ins[i0 := None]) (outs[i1' := None])
               (nDel + 1) i1' (i0 + 1)
         | Inr (i1', False) \<Rightarrow>
             DeleteIntermediateOutputs_outer ecc ins outs nDel i1' (i0 + 1))
      else Inr (ins, outs, nDel))"
  by pat_completeness auto
termination
  by (relation "measure (\<lambda>(ecc, ins, outs, nDel, i1, i0). length ins - i0)") auto

text \<open>
  \<open>size_t TxVectors::DeleteIntermediateOutputs()\<close>: the count returned and the vectors
  it leaves.  The source starts the output index at \<open>m_vOutputs.size()\<close>.
\<close>

definition DeleteIntermediateOutputs ::
  "('n, 'sg, 'cf, 'pb) ECC \<Rightarrow> ('sg, 'cf, 'pb) TxVectors
     \<Rightarrow> fault + (nat \<times> ('sg, 'cf, 'pb) TxVectors)" where
  "DeleteIntermediateOutputs ecc txv =
     (let i1 = length (m_vOutputs txv) in
      case DeleteIntermediateOutputs_outer ecc (m_vInputs txv) (m_vOutputs txv) 0 i1 0 of
        Inl e \<Rightarrow> Inl e
      | Inr (ins, outs, nDel) \<Rightarrow>
          if nDel \<noteq> 0 then
            Inr (nDel, txv\<lparr>m_vInputs := RebuildVectorWithoutNulls ins,
                            m_vOutputs := RebuildVectorWithoutNulls outs\<rparr>)
          else Inr (nDel, txv\<lparr>m_vInputs := ins, m_vOutputs := outs\<rparr>))"

section \<open>Readers, writers and \<open>Combine\<close>\<close>

text \<open>
  \<open>TxBase::IReader\<close> has four cursors, each the current item or null, and a method to
  advance each.  A reader is modelled by what each cursor still has to deliver: the
  current item is the head of the list, the null cursor is the empty list, and advancing
  drops the head (an exhausted cursor stays null, as \<open>get_FromVector\<close> and
  \<open>LoadInternal\<close> leave it).  \<open>Reset()\<close> is the reader with its full lists.
\<close>

record ('sg, 'cf, 'pb) IReader =
  m_pUtxoIn :: "Input list"
  m_pUtxoOut :: "('cf, 'pb) Output list"
  m_pKernelIn :: "'sg TxKernel list"
  m_pKernelOut :: "'sg TxKernel list"

definition cursor :: "'a list \<Rightarrow> 'a option" where
  "cursor xs = (case xs of [] \<Rightarrow> None | x # _ \<Rightarrow> Some x)"

definition NextUtxoIn :: "('sg, 'cf, 'pb) IReader \<Rightarrow> ('sg, 'cf, 'pb) IReader" where
  "NextUtxoIn r = r\<lparr>m_pUtxoIn := tl (m_pUtxoIn r)\<rparr>"

definition NextUtxoOut :: "('sg, 'cf, 'pb) IReader \<Rightarrow> ('sg, 'cf, 'pb) IReader" where
  "NextUtxoOut r = r\<lparr>m_pUtxoOut := tl (m_pUtxoOut r)\<rparr>"

definition NextKernelIn :: "('sg, 'cf, 'pb) IReader \<Rightarrow> ('sg, 'cf, 'pb) IReader" where
  "NextKernelIn r = r\<lparr>m_pKernelIn := tl (m_pKernelIn r)\<rparr>"

definition NextKernelOut :: "('sg, 'cf, 'pb) IReader \<Rightarrow> ('sg, 'cf, 'pb) IReader" where
  "NextKernelOut r = r\<lparr>m_pKernelOut := tl (m_pKernelOut r)\<rparr>"

text \<open>\<open>TxBase::IWriter\<close>: what has been written, in order, by the four write methods.\<close>

record ('sg, 'cf, 'pb) IWriter =
  w_UtxoIn :: "Input list"
  w_UtxoOut :: "('cf, 'pb) Output list"
  w_KernelIn :: "'sg TxKernel list"
  w_KernelOut :: "'sg TxKernel list"

text \<open>
  The selection loop of \<open>Combine\<close> over the readers, for one kind of cursor:
  \<^verbatim>\<open>if (pi && (!pInp || (*pInp > *pi))) { pInp = pi; iInp = i; }\<close>
  \<open>gt\<close> is \<open>operator >\<close> of the item type, which is \<open>cmp > 0\<close>.
\<close>

definition select_step ::
  "('a \<Rightarrow> 'a \<Rightarrow> bool) \<Rightarrow> ('a \<times> nat) option \<Rightarrow> nat \<times> 'a option \<Rightarrow> ('a \<times> nat) option" where
  "select_step gt acc ic =
     (case snd ic of
        None \<Rightarrow> acc
      | Some v \<Rightarrow>
          (case acc of
             None \<Rightarrow> Some (v, fst ic)
           | Some (m, j) \<Rightarrow> if gt m v then Some (v, fst ic) else acc))"

definition select_min :: "('a \<Rightarrow> 'a \<Rightarrow> bool) \<Rightarrow> 'a option list \<Rightarrow> ('a \<times> nat) option" where
  "select_min gt cs = foldl (select_step gt) None (zip [0..<length cs] cs)"

text \<open>
  The first loop of \<open>Combine\<close> (inputs and outputs).  \<open>None\<close> is a loop that never
  ends; the flag \<open>bStop\<close> is read as a constant.  The result carries the return value
  (false when stopped), the readers and the writer.
\<close>

partial_function (option) Combine_utxo ::
  "('n, 'sg, 'cf, 'pb) ECC \<Rightarrow> bool \<Rightarrow> ('sg, 'cf, 'pb) IReader list \<Rightarrow> ('sg, 'cf, 'pb) IWriter
     \<Rightarrow> (bool \<times> ('sg, 'cf, 'pb) IReader list \<times> ('sg, 'cf, 'pb) IWriter) option" where
  "Combine_utxo ecc bStop rs w =
     (if bStop then Some (False, rs, w)
      else
        (case select_min (\<lambda>a b. cmp_CaM ecc a b > 0) (map (\<lambda>r. cursor (m_pUtxoIn r)) rs) of
           Some (inp, iInp) \<Rightarrow>
             (case select_min (\<lambda>a b. Output_cmp ecc a b > 0) (map (\<lambda>r. cursor (m_pUtxoOut r)) rs) of
                Some (out, iOut) \<Rightarrow>
                  (let n = cmp_CaM ecc inp out in
                   if n > 0 then
                     Combine_utxo ecc bStop (rs[iOut := NextUtxoOut (rs ! iOut)])
                       (w\<lparr>w_UtxoOut := w_UtxoOut w @ [out]\<rparr>)
                   else if n = 0 then
                     (let rs1 = rs[iInp := NextUtxoIn (rs ! iInp)]
                      in Combine_utxo ecc bStop (rs1[iOut := NextUtxoOut (rs1 ! iOut)]) w)
                   else
                     Combine_utxo ecc bStop (rs[iInp := NextUtxoIn (rs ! iInp)])
                       (w\<lparr>w_UtxoIn := w_UtxoIn w @ [inp]\<rparr>))
              | None \<Rightarrow>
                  Combine_utxo ecc bStop (rs[iInp := NextUtxoIn (rs ! iInp)])
                    (w\<lparr>w_UtxoIn := w_UtxoIn w @ [inp]\<rparr>))
         | None \<Rightarrow>
             (case select_min (\<lambda>a b. Output_cmp ecc a b > 0) (map (\<lambda>r. cursor (m_pUtxoOut r)) rs) of
                None \<Rightarrow> Some (True, rs, w)
              | Some (out, iOut) \<Rightarrow>
                  Combine_utxo ecc bStop (rs[iOut := NextUtxoOut (rs ! iOut)])
                    (w\<lparr>w_UtxoOut := w_UtxoOut w @ [out]\<rparr>))))"

text \<open>
  The second loop (kernels).  On a match the source calls \<open>NextUtxoIn\<close> and
  \<open>NextUtxoOut\<close> on the two readers and continues.
\<close>

partial_function (option) Combine_kernels ::
  "('n, 'sg, 'cf, 'pb) ECC \<Rightarrow> bool \<Rightarrow> ('sg, 'cf, 'pb) IReader list \<Rightarrow> ('sg, 'cf, 'pb) IWriter
     \<Rightarrow> (bool \<times> ('sg, 'cf, 'pb) IReader list \<times> ('sg, 'cf, 'pb) IWriter) option" where
  "Combine_kernels ecc bStop rs w =
     (if bStop then Some (False, rs, w)
      else
        (case select_min (\<lambda>a b. TxKernel_cmp ecc a b > 0) (map (\<lambda>r. cursor (m_pKernelIn r)) rs) of
           Some (inp, iInp) \<Rightarrow>
             (case select_min (\<lambda>a b. TxKernel_cmp ecc a b > 0) (map (\<lambda>r. cursor (m_pKernelOut r)) rs) of
                Some (out, iOut) \<Rightarrow>
                  (let n = TxKernel_cmp ecc inp out in
                   if n > 0 then
                     Combine_kernels ecc bStop (rs[iOut := NextKernelOut (rs ! iOut)])
                       (w\<lparr>w_KernelOut := w_KernelOut w @ [out]\<rparr>)
                   else if n = 0 then
                     (let rs1 = rs[iInp := NextUtxoIn (rs ! iInp)]
                      in Combine_kernels ecc bStop (rs1[iOut := NextUtxoOut (rs1 ! iOut)]) w)
                   else
                     Combine_kernels ecc bStop (rs[iInp := NextKernelIn (rs ! iInp)])
                       (w\<lparr>w_KernelIn := w_KernelIn w @ [inp]\<rparr>))
              | None \<Rightarrow>
                  Combine_kernels ecc bStop (rs[iInp := NextKernelIn (rs ! iInp)])
                    (w\<lparr>w_KernelIn := w_KernelIn w @ [inp]\<rparr>))
         | None \<Rightarrow>
             (case select_min (\<lambda>a b. TxKernel_cmp ecc a b > 0) (map (\<lambda>r. cursor (m_pKernelOut r)) rs) of
                None \<Rightarrow> Some (True, rs, w)
              | Some (out, iOut) \<Rightarrow>
                  Combine_kernels ecc bStop (rs[iOut := NextKernelOut (rs ! iOut)])
                    (w\<lparr>w_KernelOut := w_KernelOut w @ [out]\<rparr>))))"

text \<open>
  \<open>bool TxBase::IWriter::Combine(IReader** ppR, int nR, const volatile bool& bStop)\<close>,
  on readers that have been reset: the return value and what was written.
\<close>

definition Combine ::
  "('n, 'sg, 'cf, 'pb) ECC \<Rightarrow> bool \<Rightarrow> ('sg, 'cf, 'pb) IReader list \<Rightarrow> ('sg, 'cf, 'pb) IWriter
     \<Rightarrow> (bool \<times> ('sg, 'cf, 'pb) IWriter) option" where
  "Combine ecc bStop rs w =
     (case Combine_utxo ecc bStop rs w of
        None \<Rightarrow> None
      | Some (False, rs1, w1) \<Rightarrow> Some (False, w1)
      | Some (True, rs1, w1) \<Rightarrow>
          (case Combine_kernels ecc bStop rs1 w1 of
             None \<Rightarrow> None
           | Some (ret, rs2, w2) \<Rightarrow> Some (ret, w2)))"

section \<open>Big amounts\<close>

record AmountBig =
  Lo :: Amount
  Hi :: Amount

text \<open>\<open>AmountBig::operator += (Amount)\<close> and \<open>AmountBig::operator += (const AmountBig&)\<close>.\<close>

definition AmountBig_add_Amount :: "AmountBig \<Rightarrow> Amount \<Rightarrow> AmountBig" where
  "AmountBig_add_Amount a x =
     (let lo = Lo a + x in \<lparr>Lo = lo, Hi = (if lo < x then Hi a + 1 else Hi a)\<rparr>)"

definition AmountBig_add :: "AmountBig \<Rightarrow> AmountBig \<Rightarrow> AmountBig" where
  "AmountBig_add a x = (let a' = AmountBig_add_Amount a (Lo x) in a'\<lparr>Hi := Hi a' + Hi x\<rparr>)"

text \<open>
  \<open>AmountBig::Export\<close>: the low word into bits 0 to 63 of a zeroed \<open>uintBig\<close>, the high
  word into bits 64 to 127.
\<close>

definition Export :: "AmountBig \<Rightarrow> uintBig" where
  "Export a = ucast (Lo a) OR push_bit 64 (ucast (Hi a))"

text \<open>\<open>AmountBig::AddTo(ECC::Point::Native& res)\<close>, returning the new \<open>res\<close>.\<close>

definition AddTo :: "('n::ab_group_add, 'sg, 'cf, 'pb) ECC \<Rightarrow> AmountBig \<Rightarrow> 'n \<Rightarrow> 'n" where
  "AddTo ecc a res =
     (if Hi a \<noteq> 0 then res + H_Big_mul ecc (Export a)
      else if Lo a \<noteq> 0 then res + H_mul ecc (Lo a)
      else res)"

section \<open>The validation context\<close>

text \<open>
  \<open>TxBase::Context\<close>.  Its members \<open>m_Sigma\<close>, \<open>m_Fee\<close>, \<open>m_Coinbase\<close>,
  \<open>m_Height\<close>, \<open>m_bBlockMode\<close>, \<open>m_nVerifiers\<close>, \<open>m_iVerifier\<close> and \<open>m_pAbort\<close>
  carry the prefix \<open>c_\<close> here, since kernels and outputs have members of the same names.
  \<open>c_pAbort\<close> is \<open>None\<close> for the null pointer and otherwise the value of the flag it
  points to, read as a constant.
\<close>

record 'n Context =
  c_Sigma :: 'n
  c_Fee :: AmountBig
  c_Coinbase :: AmountBig
  c_Height :: HeightRange
  c_bBlockMode :: bool
  c_nVerifiers :: u32
  c_iVerifier :: u32
  c_pAbort :: "bool option"

text \<open>
  \<open>TxBase\<close> holds the offset; \<open>Block::BodyBase\<close> adds the subsidy and the closing
  flag.
\<close>

record TxBase =
  m_Offset :: Scalar

record BodyBase = TxBase +
  m_Subsidy :: AmountBig
  m_SubsidyClosing :: bool

text \<open>
  \<open>bool TxBase::Context::IsValidBlock(const Block::BodyBase& bb, bool bSubsidyOpen)\<close>:
  the return value and the context it leaves.  The three \<open>ECC::uintBig\<close> variables are
  256-bit words; \<open>Negate\<close> is the two's complement.
\<close>

definition IsValidBlock ::
  "('n::ab_group_add, 'sg, 'cf, 'pb) ECC \<Rightarrow> Rules \<Rightarrow> 'n Context \<Rightarrow> BodyBase \<Rightarrow> bool
     \<Rightarrow> bool \<times> 'n Context" where
  "IsValidBlock ecc rules ctx bb bSubsidyOpen =
     (let ctx = ctx\<lparr>c_Sigma := - c_Sigma ctx\<rparr>;
          ctx = ctx\<lparr>c_Sigma := AddTo ecc (m_Subsidy bb) (c_Sigma ctx)\<rparr>
      in
      if \<not> (c_Sigma ctx = 0) then (False, ctx)
      else if bSubsidyOpen then (True, ctx)
      else if m_SubsidyClosing bb then (False, ctx)
      else
        let nBlocksInRange = m_Max (c_Height ctx) - m_Min (c_Height ctx) + 1;
            ubSubsidy = Export (m_Subsidy bb);
            mul = (ucast (CoinbaseEmission rules) :: uintBig);
            ubCoinbase = (ucast nBlocksInRange :: uintBig);
            ubCoinbase = ubCoinbase * mul
        in
        if ubSubsidy > ubCoinbase then (False, ctx)
        else
          let ubSubsidy =
                (if nBlocksInRange > MaturityCoinbase rules then
                   let nBlocksInRange = nBlocksInRange - MaturityCoinbase rules;
                       ubCoinbase = (ucast nBlocksInRange :: uintBig);
                       ubCoinbase = ubCoinbase * mul
                   in if ubSubsidy > ubCoinbase then ubSubsidy + (- ubCoinbase) else 0
                 else ubSubsidy);
              ubCoinbase = Export (c_Coinbase ctx)
          in (ubCoinbase \<ge> ubSubsidy, ctx))"

section \<open>Kernel validity\<close>

text \<open>
  \<open>TxKernel::HashToID\<close>: the all-zero hash is reserved, \<open>Inc()\<close> adds one.
\<close>

definition HashToID :: "('n, 'sg, 'cf, 'pb) ECC \<Rightarrow> 'sg TxKernel \<Rightarrow> Hash \<Rightarrow> Hash" where
  "HashToID ecc k hv =
     (let hv = Hash_Processor ecc [HHash hv, HPoint (m_Excess k), HU32 (m_Multiplier k)]
      in if hv = 0 then hv + 1 else hv)"

text \<open>
  \<open>bool TxKernel::Traverse(hv, pFee, pExcess, pParent, pLockImage) const\<close>.  The two
  accumulators behind \<open>pFee\<close> and \<open>pExcess\<close> and the parent are options (\<open>None\<close> is
  the null pointer); the hash processor \<open>hp\<close> is the list of what it has absorbed.  The
  result \<open>None\<close> is the return value false; otherwise it is \<open>hv\<close> and the two
  accumulators.  \<open>Traverse_nested\<close> is the loop over \<open>m_vNested\<close>, with \<open>p0Krn\<close>.
\<close>

function Traverse ::
  "('n::ab_group_add, 'sg, 'cf, 'pb) ECC \<Rightarrow> 'sg TxKernel \<Rightarrow> Hash \<Rightarrow> AmountBig option
     \<Rightarrow> 'n option \<Rightarrow> 'sg TxKernel option \<Rightarrow> Hash option
     \<Rightarrow> (Hash \<times> AmountBig option \<times> 'n option) option"
  and Traverse_nested ::
  "('n::ab_group_add, 'sg, 'cf, 'pb) ECC \<Rightarrow> 'sg TxKernel \<Rightarrow> 'sg TxKernel option
     \<Rightarrow> 'sg TxKernel list \<Rightarrow> HItem list \<Rightarrow> Hash \<Rightarrow> AmountBig option \<Rightarrow> 'n option
     \<Rightarrow> (HItem list \<times> Hash \<times> AmountBig option \<times> 'n option) option"
  where
  "Traverse ecc (TxKernel ex mu sg fee h hl ns) hv pFee pExcess pParent pLockImage =
     (if (case pParent of
            None \<Rightarrow> False
          | Some p \<Rightarrow>
              mu \<noteq> m_Multiplier p
              \<or> m_Min h > m_Min (m_Height p) \<or> m_Max h < m_Max (m_Height p))
      then None
      else
        let hp = [HAmount fee, HHeight (m_Min h), HHeight (m_Max h), HBool (hl \<noteq> None)];
            hv = (case hl of
                    None \<Rightarrow> hv
                  | Some preimage \<Rightarrow>
                      (case pLockImage of
                         None \<Rightarrow> Hash_Processor ecc [HHash preimage]
                       | Some lockImage \<Rightarrow> hv));
            hp = (case hl of
                    None \<Rightarrow> hp
                  | Some preimage \<Rightarrow>
                      (case pLockImage of
                         None \<Rightarrow> hp @ [HHash hv]
                       | Some lockImage \<Rightarrow> hp @ [HHash lockImage]))
        in
        case Traverse_nested ecc (TxKernel ex mu sg fee h hl ns) None ns hp hv pFee pExcess of
          None \<Rightarrow> None
        | Some (hp, hv, pFee, pExcess) \<Rightarrow>
            let hv = Hash_Processor ecc hp in
            (case pExcess of
               None \<Rightarrow> Some (hv, map_option (\<lambda>f. AmountBig_add_Amount f fee) pFee, None)
             | Some exc \<Rightarrow>
                 (case Point_Import ecc ex of
                    None \<Rightarrow> None
                  | Some pt \<Rightarrow>
                      let pt = (if mu \<noteq> 0 then Point_mul ecc pt (mu + 1) else pt) in
                      if \<not> Signature_IsValid ecc sg hv pt then None
                      else Some (hv, map_option (\<lambda>f. AmountBig_add_Amount f fee) pFee,
                                 Some (exc + pt)))))"
| "Traverse_nested ecc this p0Krn [] hp hv pFee pExcess =
     Some (hp @ [HBool True], hv, pFee, pExcess)"
| "Traverse_nested ecc this p0Krn (v # vs) hp hv pFee pExcess =
     (let hp = hp @ [HBool False] in
      if (case p0Krn of None \<Rightarrow> False | Some p \<Rightarrow> TxKernel_cmp ecc p v > 0) then None
      else
        case Traverse ecc v hv pFee pExcess (Some this) None of
          None \<Rightarrow> None
        | Some (hv, pFee, pExcess) \<Rightarrow>
            let hv = HashToID ecc v hv in
            Traverse_nested ecc this (Some v) vs (hp @ [HHash hv]) hv pFee pExcess)"
  by pat_completeness auto
termination
  by (relation "measure (\<lambda>x. case x of
        Inl (ecc, k, hv, pFee, pExcess, pParent, pLockImage) \<Rightarrow> 2 * size k
      | Inr (ecc, this, p0Krn, vs, hp, hv, pFee, pExcess) \<Rightarrow> 2 * size_list size vs + 1)")
    auto

text \<open>
  \<open>bool TxKernel::IsValid(AmountBig& fee, ECC::Point::Native& exc) const\<close>: \<open>None\<close> for
  false, otherwise the two accumulators.
\<close>

definition TxKernel_IsValid ::
  "('n::ab_group_add, 'sg, 'cf, 'pb) ECC \<Rightarrow> 'sg TxKernel \<Rightarrow> AmountBig \<Rightarrow> 'n
     \<Rightarrow> (AmountBig \<times> 'n) option" where
  "TxKernel_IsValid ecc k fee exc =
     (case Traverse ecc k 0 (Some fee) (Some exc) None None of
        Some (hv, Some fee', Some exc') \<Rightarrow> Some (fee', exc')
      | _ \<Rightarrow> None)"

section \<open>Height ranges and the context's methods\<close>

definition Intersect :: "HeightRange \<Rightarrow> HeightRange \<Rightarrow> HeightRange" where
  "Intersect r x = \<lparr>m_Min = max (m_Min r) (m_Min x), m_Max = min (m_Max r) (m_Max x)\<rparr>"

definition IsEmpty :: "HeightRange \<Rightarrow> bool" where
  "IsEmpty r \<longleftrightarrow> m_Min r > m_Max r"

text \<open>
  \<open>bool ShouldVerify(uint32_t& iV) const\<close>: the return value and the new \<open>iV\<close>.
\<close>

definition ShouldVerify :: "'n Context \<Rightarrow> u32 \<Rightarrow> bool \<times> u32" where
  "ShouldVerify ctx iV = (if iV \<noteq> 0 then (False, iV - 1) else (True, c_nVerifiers ctx - 1))"

definition ShouldAbort :: "'n Context \<Rightarrow> bool" where
  "ShouldAbort ctx \<longleftrightarrow> (case c_pAbort ctx of None \<Rightarrow> False | Some b \<Rightarrow> b)"

text \<open>
  \<open>bool HandleElementHeight(const HeightRange& hr)\<close> and
  \<open>bool Merge(const Context& x)\<close>: \<open>None\<close> for false, otherwise the context.  The
  assertion of \<open>Merge\<close> that the two block modes agree is a condition of its success
  here.
\<close>

definition HandleElementHeight :: "'n Context \<Rightarrow> HeightRange \<Rightarrow> 'n Context option" where
  "HandleElementHeight ctx hr =
     (let r = Intersect (c_Height ctx) hr in
      if IsEmpty r then None
      else if \<not> c_bBlockMode ctx then Some (ctx\<lparr>c_Height := r\<rparr>)
      else Some ctx)"

definition Merge :: "'n::ab_group_add Context \<Rightarrow> 'n Context \<Rightarrow> 'n Context option" where
  "Merge ctx x =
     (if c_bBlockMode ctx \<noteq> c_bBlockMode x then None
      else
        case HandleElementHeight ctx (c_Height x) of
          None \<Rightarrow> None
        | Some ctx \<Rightarrow>
            Some (ctx\<lparr>c_Sigma := c_Sigma ctx + c_Sigma x,
                      c_Fee := AmountBig_add (c_Fee ctx) (c_Fee x),
                      c_Coinbase := AmountBig_add (c_Coinbase ctx) (c_Coinbase x)\<rparr>))"

section \<open>\<open>ValidateAndSummarize\<close>\<close>

text \<open>
  \<open>bool TxBase::Context::ValidateAndSummarize(const TxBase& txb, IReader&& r)\<close>.  Each of
  the four \<open>for\<close> loops of the source is a function over what its cursor delivers, with
  the context, the counter \<open>iV\<close> and \<open>pPrev\<close>; the loop over the input kernels also
  carries the output-kernel cursor, which the search for the matching output kernel
  (\<open>locate_kernel_out\<close>, the inner \<open>while (true)\<close>) advances.  \<open>None\<close> is the return
  value false; a failed assertion is treated in the same way.  The operators \<open>>\<close> on
  inputs, outputs and kernels are \<open>cmp > 0\<close>, and \<open>>\<close> and \<open>==\<close> on points are
  \<open>Point_cmp > 0\<close> and \<open>Point_cmp = 0\<close>.  The dummy \<open>feeInp\<close> starts at zero.
\<close>

definition AmountBig_zero :: AmountBig where
  "AmountBig_zero = \<lparr>Lo = 0, Hi = 0\<rparr>"

definition neg_Sigma :: "'n::ab_group_add Context \<Rightarrow> 'n Context" where
  "neg_Sigma ctx = ctx\<lparr>c_Sigma := - c_Sigma ctx\<rparr>"

fun VS_inputs ::
  "('n::ab_group_add, 'sg, 'cf, 'pb) ECC \<Rightarrow> 'n Context \<Rightarrow> u32 \<Rightarrow> Input option \<Rightarrow> Input list
     \<Rightarrow> ('n Context \<times> u32) option" where
  "VS_inputs ecc ctx iV pPrev [] = Some (ctx, iV)"
| "VS_inputs ecc ctx iV pPrev (x # xs) =
     (if ShouldAbort ctx then None
      else
        case ShouldVerify ctx iV of
          (True, iV) \<Rightarrow>
            if (case pPrev of None \<Rightarrow> False | Some p \<Rightarrow> cmp_CaM ecc p x > 0) then None
            else
              (case Point_Import ecc (m_Commitment x) of
                 None \<Rightarrow> None
               | Some pt \<Rightarrow>
                   VS_inputs ecc (ctx\<lparr>c_Sigma := c_Sigma ctx + pt\<rparr>) iV (Some x) xs)
        | (False, iV) \<Rightarrow> VS_inputs ecc ctx iV (Some x) xs)"

fun locate_kernel_out ::
  "('n, 'sg, 'cf, 'pb) ECC \<Rightarrow> 'sg TxKernel \<Rightarrow> 'sg TxKernel list \<Rightarrow> 'sg TxKernel list option"
  where
  "locate_kernel_out ecc kIn [] = None"
| "locate_kernel_out ecc kIn (vOut # rest) =
     (if Point_cmp ecc (m_Excess vOut) (m_Excess kIn) > 0 then None
      else if Point_cmp ecc (m_Excess vOut) (m_Excess kIn) = 0 then
        (if m_Multiplier vOut \<le> m_Multiplier kIn then None else Some rest)
      else locate_kernel_out ecc kIn rest)"

fun VS_kernels_in ::
  "('n::ab_group_add, 'sg, 'cf, 'pb) ECC \<Rightarrow> 'n Context \<Rightarrow> u32 \<Rightarrow> 'sg TxKernel option
     \<Rightarrow> 'sg TxKernel list \<Rightarrow> 'sg TxKernel list \<Rightarrow> ('n Context \<times> u32) option" where
  "VS_kernels_in ecc ctx iV pPrev [] kOut = Some (ctx, iV)"
| "VS_kernels_in ecc ctx iV pPrev (k # ks) kOut =
     (if ShouldAbort ctx then None
      else
        case locate_kernel_out ecc k kOut of
          None \<Rightarrow> None
        | Some kOut \<Rightarrow>
            (case ShouldVerify ctx iV of
               (True, iV) \<Rightarrow>
                 if (case pPrev of None \<Rightarrow> False | Some p \<Rightarrow> TxKernel_cmp ecc p k > 0)
                 then None
                 else
                   (case TxKernel_IsValid ecc k AmountBig_zero (c_Sigma ctx) of
                      None \<Rightarrow> None
                    | Some (feeInp, exc) \<Rightarrow>
                        VS_kernels_in ecc (ctx\<lparr>c_Sigma := exc\<rparr>) iV (Some k) ks kOut)
             | (False, iV) \<Rightarrow> VS_kernels_in ecc ctx iV (Some k) ks kOut))"

fun VS_outputs ::
  "('n::ab_group_add, 'sg, 'cf, 'pb) ECC \<Rightarrow> Rules \<Rightarrow> 'n Context \<Rightarrow> u32
     \<Rightarrow> ('cf, 'pb) Output option \<Rightarrow> ('cf, 'pb) Output list \<Rightarrow> ('n Context \<times> u32) option"
  where
  "VS_outputs ecc rules ctx iV pPrev [] = Some (ctx, iV)"
| "VS_outputs ecc rules ctx iV pPrev (x # xs) =
     (if ShouldAbort ctx then None
      else
        case ShouldVerify ctx iV of
          (True, iV) \<Rightarrow>
            if (case pPrev of None \<Rightarrow> False | Some p \<Rightarrow> Output_cmp ecc p x > 0) then None
            else
              (case Output_IsValid ecc rules x of
                 None \<Rightarrow> None
               | Some pt \<Rightarrow>
                   let ctx = ctx\<lparr>c_Sigma := c_Sigma ctx + pt\<rparr> in
                   if m_Coinbase x then
                     if \<not> c_bBlockMode ctx then None
                     else
                       (case m_pPublic x of
                          None \<Rightarrow> None
                        | Some pub \<Rightarrow>
                            VS_outputs ecc rules
                              (ctx\<lparr>c_Coinbase := AmountBig_add_Amount (c_Coinbase ctx) (m_Value pub)\<rparr>)
                              iV (Some x) xs)
                   else VS_outputs ecc rules ctx iV (Some x) xs)
        | (False, iV) \<Rightarrow> VS_outputs ecc rules ctx iV (Some x) xs)"

fun VS_kernels_out ::
  "('n::ab_group_add, 'sg, 'cf, 'pb) ECC \<Rightarrow> 'n Context \<Rightarrow> u32 \<Rightarrow> 'sg TxKernel option
     \<Rightarrow> 'sg TxKernel list \<Rightarrow> ('n Context \<times> u32) option" where
  "VS_kernels_out ecc ctx iV pPrev [] = Some (ctx, iV)"
| "VS_kernels_out ecc ctx iV pPrev (k # ks) =
     (if ShouldAbort ctx then None
      else
        case ShouldVerify ctx iV of
          (True, iV) \<Rightarrow>
            if (case pPrev of None \<Rightarrow> False | Some p \<Rightarrow> TxKernel_cmp ecc p k > 0) then None
            else
              (case TxKernel_IsValid ecc k (c_Fee ctx) (c_Sigma ctx) of
                 None \<Rightarrow> None
               | Some (fee, exc) \<Rightarrow>
                   (case HandleElementHeight (ctx\<lparr>c_Fee := fee, c_Sigma := exc\<rparr>) (m_Height k) of
                      None \<Rightarrow> None
                    | Some ctx \<Rightarrow> VS_kernels_out ecc ctx iV (Some k) ks))
        | (False, iV) \<Rightarrow> VS_kernels_out ecc ctx iV (Some k) ks)"

definition ValidateAndSummarize ::
  "('n::ab_group_add, 'sg, 'cf, 'pb) ECC \<Rightarrow> Rules \<Rightarrow> 'n Context \<Rightarrow> 'a TxBase_scheme
     \<Rightarrow> ('sg, 'cf, 'pb) IReader \<Rightarrow> 'n Context option" where
  "ValidateAndSummarize ecc rules ctx txb r =
     (if IsEmpty (c_Height ctx) then None
      else if c_nVerifiers ctx = 0 then None
      else
        let ctx = neg_Sigma ctx; iV = c_iVerifier ctx in
        case VS_inputs ecc ctx iV None (m_pUtxoIn r) of
          None \<Rightarrow> None
        | Some (ctx, iV) \<Rightarrow>
            (case VS_kernels_in ecc ctx iV None (m_pKernelIn r) (m_pKernelOut r) of
               None \<Rightarrow> None
             | Some (ctx, iV) \<Rightarrow>
                 let ctx = neg_Sigma ctx in
                 (case VS_outputs ecc rules ctx iV None (m_pUtxoOut r) of
                    None \<Rightarrow> None
                  | Some (ctx, iV) \<Rightarrow>
                      (case VS_kernels_out ecc ctx iV None (m_pKernelOut r) of
                         None \<Rightarrow> None
                       | Some (ctx, iV) \<Rightarrow>
                           let ctx = (if fst (ShouldVerify ctx iV)
                                      then ctx\<lparr>c_Sigma := c_Sigma ctx + G_mul ecc (m_Offset txb)\<rparr>
                                      else ctx)
                           in if IsEmpty (c_Height ctx) then None else Some ctx))))"

text \<open>
  Two readings used to state properties of \<open>IsValidBlock\<close>: the number an \<open>AmountBig\<close>
  stands for, and the value the function computes for \<open>nBlocksInRange\<close>
  (\<open>m_Height.m_Max - m_Height.m_Min + 1\<close> in 64 bits).
\<close>

definition amount_of :: "AmountBig \<Rightarrow> nat" where
  "amount_of a = unat (Lo a) + 2 ^ 64 * unat (Hi a)"

definition nBlocksInRange :: "'n Context \<Rightarrow> nat" where
  "nBlocksInRange ctx = unat (m_Max (c_Height ctx) - m_Min (c_Height ctx) + 1)"

section \<open>The chain-work sampler\<close>

text \<open>
  \<open>Difficulty::Raw\<close> is \<open>ECC::uintBig\<close>.  Its arithmetic (\<open>Negate\<close>, \<open>+=\<close>, the
  comparisons) is that of 256-bit words.  \<open>m_pData\<close> is its array of \<open>nBytes = 32\<close>
  bytes, most significant byte first; \<open>from_pData\<close> reads such an array back.
\<close>

type_synonym Raw = uintBig

fun be_bytes :: "nat \<Rightarrow> nat \<Rightarrow> byte list" where
  "be_bytes 0 n = []"
| "be_bytes (Suc k) n = be_bytes k (n div 256) @ [of_nat (n mod 256)]"

definition be_val :: "byte list \<Rightarrow> nat" where
  "be_val bs = foldl (\<lambda>a b. a * 256 + unat b) 0 bs"

definition m_pData :: "uintBig \<Rightarrow> byte list" where
  "m_pData v = be_bytes 32 (unat v)"

definition from_pData :: "byte list \<Rightarrow> uintBig" where
  "from_pData bs = of_nat (be_val bs)"

text \<open>
  \<^verbatim>\<open>static void TakeFraction(Difficulty::Raw& v) {
    uint8_t carry = 0;
    for (uint32_t nByte = 0; nByte < v.nBytes; nByte++) {
      uint8_t& x = v.m_pData[nByte];
      uint8_t n = x << 1; x = (x >> 7) | carry; carry = n; } }\<close>
\<close>

fun TakeFraction_loop :: "byte \<Rightarrow> byte list \<Rightarrow> byte list" where
  "TakeFraction_loop carry [] = []"
| "TakeFraction_loop carry (x # xs) =
     (let n = push_bit 1 x; x' = drop_bit 7 x OR carry in x' # TakeFraction_loop n xs)"

definition TakeFraction :: "Raw \<Rightarrow> Raw" where
  "TakeFraction v = from_pData (TakeFraction_loop 0 (m_pData v))"

text \<open>
  \<open>FindOrderOf\<close>: the inner loop \<open>for (; x >>= 1; nOrder++) ;\<close> and the search for the
  first non-zero byte, \<open>nBytes\<close> being the number of bytes from the current one on.
\<close>

function FindOrderOf_bits :: "byte \<Rightarrow> nat \<Rightarrow> nat" where
  "FindOrderOf_bits x nOrder =
     (let x' = drop_bit 1 x in if x' \<noteq> 0 then FindOrderOf_bits x' (nOrder + 1) else nOrder)"
  by pat_completeness auto
termination
proof (relation "measure (\<lambda>(x, nOrder). unat x)")
  show "wf (measure (\<lambda>(x, nOrder). unat x))" by simp
next
  fix x :: byte and nOrder :: nat and x' :: byte
  assume a: "x' = drop_bit 1 x" "x' \<noteq> 0"
  have "unat (drop_bit 1 x) = unat x div 2"
    by (metis unat_drop_bit_eq drop_bit_eq_div power_one_right)
  moreover have "unat (drop_bit 1 x) \<noteq> 0" using a by (simp add: unat_eq_0)
  ultimately have "unat (drop_bit 1 x) < unat x" by linarith
  then show "((x', nOrder + 1), (x, nOrder)) \<in> measure (\<lambda>(x, nOrder). unat x)"
    using a by simp
qed

fun FindOrderOf_loop :: "byte list \<Rightarrow> nat" where
  "FindOrderOf_loop [] = 0"
| "FindOrderOf_loop (x # xs) =
     (if x = 0 then FindOrderOf_loop xs
      else FindOrderOf_bits x (push_bit 3 (length (x # xs)) - 7))"

definition FindOrderOf :: "Raw \<Rightarrow> nat" where
  "FindOrderOf v = FindOrderOf_loop (m_pData v)"

text \<open>\<open>memcmp\<close> on two byte arrays of the same length: the sign of the first difference.\<close>

fun memcmp :: "byte list \<Rightarrow> byte list \<Rightarrow> int" where
  "memcmp (x # xs) (y # ys) = (if x < y then - 1 else if x > y then 1 else memcmp xs ys)"
| "memcmp _ _ = 0"

text \<open>
  The oracle (\<open>ECC::Oracle\<close>) is a state of type \<open>'o\<close>; \<open>m_Oracle >> out\<close> is the
  function \<open>get\<close>, which returns the value drawn and the next state.

  The body of the loop of \<open>UnfiromRandom\<close>, for one value \<open>out\<close> drawn from the oracle:
  the bytes after \<open>out.m_pData[nOffs] &= msk\<close>, the test
  \<open>memcmp(out.m_pData + nOffs, threshold.m_pData + nOffs, out.nBytes - nOffs) < 0\<close>, and
  the value left by \<open>memset0(out.m_pData, nOffs)\<close>.
\<close>

definition UnfiromRandom_masked :: "nat \<Rightarrow> byte \<Rightarrow> Raw \<Rightarrow> byte list" where
  "UnfiromRandom_masked nOffs msk out =
     (let bs = m_pData out in bs[nOffs := (bs ! nOffs) AND msk])"

definition UnfiromRandom_accept :: "Raw \<Rightarrow> nat \<Rightarrow> byte \<Rightarrow> Raw \<Rightarrow> bool" where
  "UnfiromRandom_accept threshold nOffs msk out \<longleftrightarrow>
     memcmp (drop nOffs (UnfiromRandom_masked nOffs msk out)) (drop nOffs (m_pData threshold)) < 0"

definition UnfiromRandom_bingo :: "nat \<Rightarrow> byte \<Rightarrow> Raw \<Rightarrow> Raw" where
  "UnfiromRandom_bingo nOffs msk out =
     from_pData (replicate nOffs 0 @ drop nOffs (UnfiromRandom_masked nOffs msk out))"

text \<open>The \<open>while (true)\<close> loop; \<open>None\<close> is the loop that never breaks.\<close>

partial_function (option) UnfiromRandom_loop ::
  "('o \<Rightarrow> Raw \<times> 'o) \<Rightarrow> Raw \<Rightarrow> nat \<Rightarrow> byte \<Rightarrow> 'o \<Rightarrow> (Raw \<times> 'o) option" where
  "UnfiromRandom_loop get threshold nOffs msk orc =
     (case get orc of
        (out, orc') \<Rightarrow>
          if UnfiromRandom_accept threshold nOffs msk out
          then Some (UnfiromRandom_bingo nOffs msk out, orc')
          else UnfiromRandom_loop get threshold nOffs msk orc')"

text \<open>
  \<open>bool UnfiromRandom(Difficulty::Raw& out, const Difficulty::Raw& threshold)\<close>: the
  return value, with \<open>out\<close> and the oracle when it is true.
\<close>

definition UnfiromRandom_nOffs :: "Raw \<Rightarrow> nat" where
  "UnfiromRandom_nOffs threshold = 32 - 1 - drop_bit 3 (FindOrderOf threshold - 1)"

definition UnfiromRandom_msk :: "Raw \<Rightarrow> byte" where
  "UnfiromRandom_msk threshold = push_bit (7 AND (FindOrderOf threshold - 1)) 2 - 1"

definition UnfiromRandom ::
  "('o \<Rightarrow> Raw \<times> 'o) \<Rightarrow> 'o \<Rightarrow> Raw \<Rightarrow> (bool \<times> Raw \<times> 'o) option" where
  "UnfiromRandom get orc threshold =
     (if FindOrderOf threshold = 0 then Some (False, 0, orc)
      else
        case UnfiromRandom_loop get threshold (UnfiromRandom_nOffs threshold)
               (UnfiromRandom_msk threshold) orc of
          None \<Rightarrow> None
        | Some (out, orc') \<Rightarrow> Some (True, out, orc'))"

record 'o Sampler =
  m_Oracle :: 'o
  m_Begin :: Raw
  m_End :: Raw
  m_LowerBound :: Raw

text \<open>
  \<open>bool Sampler::SamplePoint(Difficulty::Raw& out)\<close>: \<open>None\<close> when the oracle loop never
  ends, a fault when \<open>verify(UnfiromRandom(out, range))\<close> fails, and otherwise the return
  value, \<open>out\<close> and the sampler.
\<close>

definition SamplePoint ::
  "('o \<Rightarrow> Raw \<times> 'o) \<Rightarrow> 'o Sampler \<Rightarrow> (fault + bool \<times> Raw \<times> 'o Sampler) option" where
  "SamplePoint get s =
     (let range = m_Begin s;
          range = - range;
          range = range + m_End s;
          range = TakeFraction range;
          range = (if range = 0 then 1 else range);
          bAllCovered = (range \<ge> m_Begin s)
      in
      case UnfiromRandom get (m_Oracle s) range of
        None \<Rightarrow> None
      | Some (False, _, _) \<Rightarrow> Some (Inl AssertionFailed)
      | Some (True, out, orc') \<Rightarrow>
          (let s = s\<lparr>m_Oracle := orc'\<rparr>;
               range = - range;
               out = out + m_Begin s;
               out = out + range
           in
           if out < m_LowerBound s \<or> out \<ge> m_Begin s then Some (Inr (False, out, s))
           else if bAllCovered then Some (Inr (True, out, s\<lparr>m_Begin := 0\<rparr>))
           else Some (Inr (True, out, s\<lparr>m_Begin := m_Begin s + range\<rparr>))))"

text \<open>
  Notions used to state what \<open>SamplePoint\<close> computes: the state of the oracle after
  \<open>k\<close> draws and the value of draw \<open>k\<close> (counted from 0); the range
  \<open>(m_End - m_Begin) >> 7\<close>, replaced by 1 when it is zero; whether draw \<open>k\<close> passes
  the test of \<open>UnfiromRandom\<close> for that range, and the value \<open>UnfiromRandom\<close> makes
  of it.
\<close>

primrec Oracle_run :: "('o \<Rightarrow> Raw \<times> 'o) \<Rightarrow> 'o \<Rightarrow> nat \<Rightarrow> 'o" where
  "Oracle_run get orc 0 = orc"
| "Oracle_run get orc (Suc k) = Oracle_run get (snd (get orc)) k"

definition Oracle_out :: "('o \<Rightarrow> Raw \<times> 'o) \<Rightarrow> 'o \<Rightarrow> nat \<Rightarrow> Raw" where
  "Oracle_out get orc k = fst (get (Oracle_run get orc k))"

definition sample_range :: "'o Sampler \<Rightarrow> Raw" where
  "sample_range s =
     (let r = drop_bit 7 (m_End s - m_Begin s) in if r = 0 then 1 else r)"

definition Sampler_accepts :: "('o \<Rightarrow> Raw \<times> 'o) \<Rightarrow> 'o Sampler \<Rightarrow> nat \<Rightarrow> bool" where
  "Sampler_accepts get s k \<longleftrightarrow>
     UnfiromRandom_accept (sample_range s) (UnfiromRandom_nOffs (sample_range s))
       (UnfiromRandom_msk (sample_range s)) (Oracle_out get (m_Oracle s) k)"

definition Sampler_random :: "('o \<Rightarrow> Raw \<times> 'o) \<Rightarrow> 'o Sampler \<Rightarrow> nat \<Rightarrow> Raw" where
  "Sampler_random get s k =
     UnfiromRandom_bingo (UnfiromRandom_nOffs (sample_range s))
       (UnfiromRandom_msk (sample_range s)) (Oracle_out get (m_Oracle s) k)"

text \<open>
  Two more, used to state what the draw is: the number of bits the draws are truncated
  to, which is what \<open>FindOrderOf\<close> returns for the range, and the set of the oracle
  values that \<open>UnfiromRandom\<close> accepts for that range and turns into the value \<open>v\<close>.
\<close>

definition Sampler_bits :: "'o Sampler \<Rightarrow> nat" where
  "Sampler_bits s = FindOrderOf (sample_range s)"

definition Sampler_draws :: "'o Sampler \<Rightarrow> Raw \<Rightarrow> Raw set" where
  "Sampler_draws s v =
     {w. UnfiromRandom_accept (sample_range s) (UnfiromRandom_nOffs (sample_range s))
           (UnfiromRandom_msk (sample_range s)) w
         \<and> UnfiromRandom_bingo (UnfiromRandom_nOffs (sample_range s))
             (UnfiromRandom_msk (sample_range s)) w = v}"

section \<open>Raw difficulty\<close>

text \<open>
  \<open>Difficulty::Unpack(Raw& res)\<close>: \<open>AssignSafe(mantissa, order)\<close> stores the mantissa
  shifted left by \<open>order\<close> bits, and \<open>Inv\<close> of zero is the all-ones value.
  \<open>Difficulty::Dec(Raw& res, const Raw& base)\<close> leaves \<open>base\<close> minus the raw
  difficulty in \<open>res\<close>.
\<close>

definition Unpack_Raw :: "Difficulty_consts \<Rightarrow> u32 \<Rightarrow> Raw" where
  "Unpack_Raw dc m_Packed =
     (if m_Packed < s_Inf dc then
        (case Unpack dc m_Packed of
           (order, mantissa) \<Rightarrow> push_bit (unat order) (ucast mantissa))
      else NOT 0)"

definition Dec :: "Difficulty_consts \<Rightarrow> u32 \<Rightarrow> Raw \<Rightarrow> Raw" where
  "Dec dc m_Packed base = (let res = Unpack_Raw dc m_Packed; res = - res in res + base)"

section \<open>System states and the chain-work proof\<close>

text \<open>
  \<open>Block::SystemState::Full\<close>.  Its height member is \<open>m_Height\<close> in the source (the
  name is taken by the kernel's height range here).  Of the proof of work, the packed
  difficulty is visible; the solution (indices and nonce) is of the opaque type \<open>'w\<close>.
\<close>

record 'w PoW =
  m_Difficulty :: u32
  m_Solution :: 'w

record 'w Full =
  m_Height_st :: Height
  m_Prev :: Hash
  m_ChainWork :: Raw
  m_Definition :: Hash
  m_TimeStamp :: "64 word"
  m_PoW :: "'w PoW"

text \<open>
  What the proof functions use from outside this file: the proof-of-work check, what the
  hash processor absorbs of a solution, the hash processor and its two-hash form
  \<open>Merkle::Interpret(out, hLeft, hRight)\<close>, the transcript oracle (seeded with a hash,
  then read), and \<open>Merkle::MultiProof::Verifier\<close>, a state of type \<open>'v\<close> built from the
  proof data and the element count, with \<open>Process\<close> (which is given the callback
  \<open>IsRootValid\<close>, the hash \<open>m_hvPos\<close> and the position), the flag \<open>m_bVerify\<close> and the
  position \<open>get_Pos\<close> in the proof data.
\<close>

record ('w, 'v, 'o) Env =
  PoW_IsValid :: "'w PoW \<Rightarrow> Hash \<Rightarrow> bool"
  PoW_items :: "'w \<Rightarrow> HItem list"
  Processor :: "HItem list \<Rightarrow> Hash"
  Oracle_seed :: "Hash \<Rightarrow> 'o"
  Oracle_get :: "'o \<Rightarrow> Raw \<times> 'o"
  Verifier_init :: "Hash list \<Rightarrow> Height \<Rightarrow> 'v"
  Verifier_Process :: "(Hash \<Rightarrow> bool) \<Rightarrow> 'v \<Rightarrow> Hash \<Rightarrow> Height \<Rightarrow> 'v"
  Verifier_bVerify :: "'v \<Rightarrow> bool"
  Verifier_get_Pos :: "'v \<Rightarrow> nat"

definition HeightGenesis :: Height where
  "HeightGenesis = 1"

definition get_HashInternal :: "('w, 'v, 'o) Env \<Rightarrow> 'w Full \<Rightarrow> bool \<Rightarrow> Hash" where
  "get_HashInternal env s bTotal =
     Processor env
       ([HHeight (m_Height_st s), HHash (m_Prev s), HHash (m_ChainWork s),
         HHash (m_Definition s), HTimestamp (m_TimeStamp s), HU32 (m_Difficulty (m_PoW s))]
        @ (if bTotal then PoW_items env (m_Solution (m_PoW s)) else []))"

definition get_HashForPoW :: "('w, 'v, 'o) Env \<Rightarrow> 'w Full \<Rightarrow> Hash" where
  "get_HashForPoW env s = get_HashInternal env s False"

definition get_Hash :: "('w, 'v, 'o) Env \<Rightarrow> 'w Full \<Rightarrow> Hash" where
  "get_Hash env s = get_HashInternal env s True"

definition IsSane :: "'w Full \<Rightarrow> bool" where
  "IsSane s =
     (if m_Height_st s < HeightGenesis then False
      else if m_Height_st s = HeightGenesis \<and> \<not> (m_Prev s = 0) then False
      else True)"

definition IsValidPoW :: "('w, 'v, 'o) Env \<Rightarrow> Rules \<Rightarrow> 'w Full \<Rightarrow> bool" where
  "IsValidPoW env rules s =
     (if FakePoW rules then True else PoW_IsValid env (m_PoW s) (get_HashForPoW env s))"

text \<open>\<open>Block::ChainWorkProof\<close>; \<open>m_Proof\<close> is the data \<open>m_Proof.m_vData\<close>.\<close>

record 'w ChainWorkProof =
  m_vStates :: "'w Full list"
  m_Proof :: "Hash list"
  m_LowerBound_cwp :: Raw
  m_hvRootLive :: Hash

text \<open>
  The constructor \<open>Sampler(const SystemState::Full& sTip)\<close>; it leaves \<open>m_LowerBound\<close>
  unset, which is 0 here until the caller assigns it.
\<close>

definition Sampler_init ::
  "('w, 'v, 'o) Env \<Rightarrow> Difficulty_consts \<Rightarrow> 'w Full \<Rightarrow> 'o Sampler" where
  "Sampler_init env dc sTip =
     \<lparr>m_Oracle = Oracle_seed env (get_Hash env sTip),
      m_Begin = Dec dc (m_Difficulty (m_PoW sTip)) (m_ChainWork sTip),
      m_End = m_ChainWork sTip,
      m_LowerBound = 0\<rparr>"

text \<open>\<open>MyVerifier::IsRootValid\<close> of \<open>IsValidInternal\<close>.\<close>

definition IsRootValid :: "('w, 'v, 'o) Env \<Rightarrow> 'w ChainWorkProof \<Rightarrow> 'w Full \<Rightarrow> Hash \<Rightarrow> bool" where
  "IsRootValid env cwp sRoot hv =
     (Processor env [HHash hv, HHash (m_hvRootLive cwp)] = m_Definition sRoot)"

text \<open>
  The sampling loop of \<open>IsValidInternal\<close>, \<open>for (iState = 1; ; iState++)\<close>.  The
  arguments are the sampler, the verifier, \<open>dLoPrev\<close>, the state \<open>m_vStates[iState - 1]\<close>,
  the states from index \<open>iState\<close> on, and \<open>iState\<close>.  Reading \<open>m_vStates[iState]\<close>
  past the end of the vector is a fault.  The result is the return value with \<open>iState\<close>
  and the verifier; \<open>None\<close> when the oracle loop of the sampler never ends.
\<close>

fun IsValid_loop ::
  "('w, 'v, 'o) Env \<Rightarrow> Difficulty_consts \<Rightarrow> (Hash \<Rightarrow> bool) \<Rightarrow> 'o Sampler \<Rightarrow> 'v \<Rightarrow> Raw
     \<Rightarrow> 'w Full \<Rightarrow> 'w Full list \<Rightarrow> nat \<Rightarrow> (fault + bool \<times> nat \<times> 'v) option" where
  "IsValid_loop env dc root_ok samp ver dLoPrev s0 [] iState =
     (case SamplePoint (Oracle_get env) samp of
        None \<Rightarrow> None
      | Some (Inl f) \<Rightarrow> Some (Inl f)
      | Some (Inr (False, dSamp, samp')) \<Rightarrow> Some (Inr (True, iState, ver))
      | Some (Inr (True, dSamp, samp')) \<Rightarrow> Some (Inl IndexOutOfRange))"
| "IsValid_loop env dc root_ok samp ver dLoPrev s0 (s # rest) iState =
     (case SamplePoint (Oracle_get env) samp of
        None \<Rightarrow> None
      | Some (Inl f) \<Rightarrow> Some (Inl f)
      | Some (Inr (False, dSamp, samp')) \<Rightarrow> Some (Inr (True, iState, ver))
      | Some (Inr (True, dSamp, samp')) \<Rightarrow>
          if dSamp \<ge> m_ChainWork s then Some (Inr (False, iState, ver))
          else
            let dLo = Dec dc (m_Difficulty (m_PoW s)) (m_ChainWork s) in
            if dSamp < dLo then Some (Inr (False, iState, ver))
            else
              let hvPos = get_Hash env s in
              if m_Height_st s + 1 = m_Height_st s0 then
                if m_Prev s0 \<noteq> hvPos then Some (Inr (False, iState, ver))
                else if m_ChainWork s \<noteq> dLoPrev then Some (Inr (False, iState, ver))
                else
                  IsValid_loop env dc root_ok
                    (if m_Begin samp' > dLo then samp'\<lparr>m_Begin := dLo\<rparr> else samp')
                    ver dLo s rest (iState + 1)
              else
                if m_Height_st s \<ge> m_Height_st s0 then Some (Inr (False, iState, ver))
                else if m_ChainWork s \<ge> dLoPrev then Some (Inr (False, iState, ver))
                else
                  let ver = Verifier_Process env root_ok ver hvPos (m_Height_st s - HeightGenesis)
                  in
                  if \<not> Verifier_bVerify env ver then Some (Inr (False, iState, ver))
                  else
                    IsValid_loop env dc root_ok
                      (if m_Begin samp' > dLo then samp'\<lparr>m_Begin := dLo\<rparr> else samp')
                      ver dLo s rest (iState + 1))"

text \<open>
  \<open>bool ChainWorkProof::IsValidInternal(size_t& iState, size_t& iHash) const\<close>: the
  return value, \<open>iState\<close> and \<open>iHash\<close>.
\<close>

definition IsValidInternal ::
  "('w, 'v, 'o) Env \<Rightarrow> Rules \<Rightarrow> Difficulty_consts \<Rightarrow> 'w ChainWorkProof
     \<Rightarrow> (fault + bool \<times> nat \<times> nat) option" where
  "IsValidInternal env rules dc cwp =
     (case m_vStates cwp of
        [] \<Rightarrow> Some (Inr (False, 0, 0))
      | sRoot # rest \<Rightarrow>
          if \<not> list_all (\<lambda>s. IsSane s \<and> IsValidPoW env rules s) (m_vStates cwp)
          then Some (Inr (False, 0, 0))
          else
            let ver = Verifier_init env (m_Proof cwp) (m_Height_st sRoot - HeightGenesis);
                samp = Sampler_init env dc sRoot
            in
            if m_Begin samp \<ge> m_End samp then Some (Inr (False, 0, 0))
            else
              let samp = samp\<lparr>m_LowerBound := m_LowerBound_cwp cwp\<rparr>;
                  dLoPrev = Dec dc (m_Difficulty (m_PoW sRoot)) (m_ChainWork sRoot)
              in
              case IsValid_loop env dc (IsRootValid env cwp sRoot) samp ver dLoPrev sRoot rest 1 of
                None \<Rightarrow> None
              | Some (Inl f) \<Rightarrow> Some (Inl f)
              | Some (Inr (False, iState, ver)) \<Rightarrow> Some (Inr (False, iState, 0))
              | Some (Inr (True, iState, ver)) \<Rightarrow>
                  Some (Inr (True, iState, Verifier_get_Pos env ver)))"

text \<open>\<open>bool ChainWorkProof::IsValid() const\<close>.\<close>

definition IsValid ::
  "('w, 'v, 'o) Env \<Rightarrow> Rules \<Rightarrow> Difficulty_consts \<Rightarrow> 'w ChainWorkProof
     \<Rightarrow> (fault + bool) option" where
  "IsValid env rules dc cwp =
     (case IsValidInternal env rules dc cwp of
        None \<Rightarrow> None
      | Some (Inl f) \<Rightarrow> Some (Inl f)
      | Some (Inr (ok, iState, iHash)) \<Rightarrow>
          Some (Inr (ok \<and> length (m_vStates cwp) = iState \<and> length (m_Proof cwp) = iHash)))"

text \<open>
  The order in which the states of a proof are to appear: \<open>b\<close> is strictly below \<open>a\<close>
  in height and in chain work.
\<close>

definition state_above :: "'w Full \<Rightarrow> 'w Full \<Rightarrow> bool" where
  "state_above a b \<longleftrightarrow> m_Height_st b < m_Height_st a \<and> m_ChainWork b < m_ChainWork a"

section \<open>Sharded validation\<close>

text \<open>
  The specification describes the validation of one stream by \<open>N\<close> contexts: all carry
  \<open>m_nVerifiers = N\<close>, each its own \<open>m_iVerifier\<close> below \<open>N\<close>, each runs
  \<open>ValidateAndSummarize\<close> on the whole stream, and the contexts are then combined with
  \<open>Merge\<close>.  The code that drives the verifiers is not part of the sources at hand, so
  this reading follows the specification: \<open>shard ctx N i\<close> is the context of verifier
  \<open>i\<close>, \<open>merge_opt\<close> is \<open>Merge\<close> on the outcomes of two runs, either of which may
  have returned false, and \<open>ValidateSharded\<close> runs the verifiers in the order of the list
  \<open>ixs\<close> and merges every outcome into the first.  \<open>summary\<close> is what a context has
  accumulated: the sum of the commitments, the fee, the coinbase and the height range.
\<close>

definition shard :: "'n Context \<Rightarrow> nat \<Rightarrow> nat \<Rightarrow> 'n Context" where
  "shard ctx N i = ctx\<lparr>c_nVerifiers := of_nat N, c_iVerifier := of_nat i\<rparr>"

definition merge_opt :: "'n::ab_group_add Context option \<Rightarrow> 'n Context option \<Rightarrow> 'n Context option"
  where
  "merge_opt x y =
     (case x of None \<Rightarrow> None | Some a \<Rightarrow> (case y of None \<Rightarrow> None | Some b \<Rightarrow> Merge a b))"

definition ValidateSharded ::
  "('n::ab_group_add, 'sg, 'cf, 'pb) ECC \<Rightarrow> Rules \<Rightarrow> 'n Context \<Rightarrow> nat \<Rightarrow> nat list
     \<Rightarrow> 'a TxBase_scheme \<Rightarrow> ('sg, 'cf, 'pb) IReader \<Rightarrow> 'n Context option" where
  "ValidateSharded ecc rules ctx N ixs txb r =
     (case map (\<lambda>i. ValidateAndSummarize ecc rules (shard ctx N i) txb r) ixs of
        [] \<Rightarrow> None
      | x # xs \<Rightarrow> foldl merge_opt x xs)"

definition summary :: "'n Context \<Rightarrow> 'n \<times> AmountBig \<times> AmountBig \<times> HeightRange" where
  "summary c = (c_Sigma c, c_Fee c, c_Coinbase c, c_Height c)"

subsection \<open>The loops of \<open>ValidateAndSummarize\<close> by positions\<close>

text \<open>
  To compare the verifiers, the loops are read a second time, with the elements to
  verify given by a predicate \<open>sel\<close> on the positions in the stream instead of the counter
  \<open>iV\<close>.  An \<open>effect\<close> is what the body of a loop does to the context for one verified
  element: \<open>None\<close> if the element is rejected, otherwise the point added to the sum, the
  amounts added to the fee and to the coinbase, and the height range handed to
  \<open>HandleElementHeight\<close>, if any.  \<open>effect_in\<close>, \<open>effect_kin\<close>, \<open>effect_out\<close> and
  \<open>effect_kout\<close> are the effects of the four loops (\<open>bm\<close> is the block mode),
  \<open>apply_effect\<close> applies one, \<open>mloop\<close> is a loop (\<open>ab\<close> is the value of
  \<open>ShouldAbort\<close>, \<open>pre\<close> what is done for every element before \<open>ShouldVerify\<close> is
  asked), and \<open>VSm\<close> is the function composed of the four loops, \<open>check_height\<close> being
  the test that the height range is not empty.  \<open>cmask N i\<close> holds of the positions that
  verifier \<open>i\<close> of \<open>N\<close> verifies, and \<open>ctr nV iV n\<close> is the counter after \<open>n\<close> calls
  of \<open>ShouldVerify\<close>.  \<open>acc_lift\<close> and \<open>acc_lift_nested\<close> add a fee and an excess to the
  accumulators that \<open>Traverse\<close> and \<open>Traverse_nested\<close> return.  That \<open>VSm\<close> agrees
  with \<open>ValidateAndSummarize\<close> is lemma \<open>VS_eq_VSm\<close> below.
\<close>

definition acc_lift ::
  "AmountBig \<Rightarrow> 'n::ab_group_add \<Rightarrow> (Hash \<times> AmountBig option \<times> 'n option) option
     \<Rightarrow> (Hash \<times> AmountBig option \<times> 'n option) option" where
  "acc_lift fee exc r =
     (case r of
        Some (h, Some f, Some e) \<Rightarrow> Some (h, Some (AmountBig_add fee f), Some (exc + e))
      | _ \<Rightarrow> None)"

definition acc_lift_nested ::
  "AmountBig \<Rightarrow> 'n::ab_group_add \<Rightarrow> (HItem list \<times> Hash \<times> AmountBig option \<times> 'n option) option
     \<Rightarrow> (HItem list \<times> Hash \<times> AmountBig option \<times> 'n option) option" where
  "acc_lift_nested fee exc r =
     (case r of
        Some (hp, h, Some f, Some e) \<Rightarrow> Some (hp, h, Some (AmountBig_add fee f), Some (exc + e))
      | _ \<Rightarrow> None)"

type_synonym 'n effect = "('n \<times> AmountBig \<times> AmountBig \<times> HeightRange option) option"

definition apply_effect :: "'n::ab_group_add effect \<Rightarrow> 'n Context \<Rightarrow> 'n Context option" where
  "apply_effect e ctx =
     (case e of
        None \<Rightarrow> None
      | Some (s, f, cb, hro) \<Rightarrow>
          (let ctx = ctx\<lparr>c_Sigma := c_Sigma ctx + s,
                          c_Fee := AmountBig_add (c_Fee ctx) f,
                          c_Coinbase := AmountBig_add (c_Coinbase ctx) cb\<rparr>
           in case hro of None \<Rightarrow> Some ctx | Some hr \<Rightarrow> HandleElementHeight ctx hr))"

definition effect_in ::
  "('n::ab_group_add, 'sg, 'cf, 'pb) ECC \<Rightarrow> Input option \<Rightarrow> Input \<Rightarrow> 'n effect" where
  "effect_in ecc pPrev x =
     (if (case pPrev of None \<Rightarrow> False | Some p \<Rightarrow> cmp_CaM ecc p x > 0) then None
      else
        case Point_Import ecc (m_Commitment x) of
          None \<Rightarrow> None
        | Some pt \<Rightarrow> Some (pt, AmountBig_zero, AmountBig_zero, None))"

definition effect_kin ::
  "('n::ab_group_add, 'sg, 'cf, 'pb) ECC \<Rightarrow> 'sg TxKernel option \<Rightarrow> 'sg TxKernel \<Rightarrow> 'n effect"
  where
  "effect_kin ecc pPrev k =
     (if (case pPrev of None \<Rightarrow> False | Some p \<Rightarrow> TxKernel_cmp ecc p k > 0) then None
      else
        case TxKernel_IsValid ecc k AmountBig_zero 0 of
          None \<Rightarrow> None
        | Some (f, e) \<Rightarrow> Some (e, AmountBig_zero, AmountBig_zero, None))"

definition effect_out ::
  "('n::ab_group_add, 'sg, 'cf, 'pb) ECC \<Rightarrow> Rules \<Rightarrow> bool \<Rightarrow> ('cf, 'pb) Output option
     \<Rightarrow> ('cf, 'pb) Output \<Rightarrow> 'n effect" where
  "effect_out ecc rules bm pPrev x =
     (if (case pPrev of None \<Rightarrow> False | Some p \<Rightarrow> Output_cmp ecc p x > 0) then None
      else
        case Output_IsValid ecc rules x of
          None \<Rightarrow> None
        | Some pt \<Rightarrow>
            if m_Coinbase x then
              if \<not> bm then None
              else
                (case m_pPublic x of
                   None \<Rightarrow> None
                 | Some pub \<Rightarrow>
                     Some (pt, AmountBig_zero, \<lparr>Lo = m_Value pub, Hi = 0\<rparr>, None))
            else Some (pt, AmountBig_zero, AmountBig_zero, None))"

definition effect_kout ::
  "('n::ab_group_add, 'sg, 'cf, 'pb) ECC \<Rightarrow> 'sg TxKernel option \<Rightarrow> 'sg TxKernel \<Rightarrow> 'n effect"
  where
  "effect_kout ecc pPrev k =
     (if (case pPrev of None \<Rightarrow> False | Some p \<Rightarrow> TxKernel_cmp ecc p k > 0) then None
      else
        case TxKernel_IsValid ecc k AmountBig_zero 0 of
          None \<Rightarrow> None
        | Some (f, e) \<Rightarrow> Some (e, f, AmountBig_zero, Some (m_Height k)))"

fun mloop ::
  "bool \<Rightarrow> ('x \<Rightarrow> 's \<Rightarrow> 's option) \<Rightarrow> ('x option \<Rightarrow> 'x \<Rightarrow> 'n effect) \<Rightarrow> (nat \<Rightarrow> bool)
     \<Rightarrow> 'n::ab_group_add Context \<Rightarrow> 's \<Rightarrow> 'x option \<Rightarrow> 'x list \<Rightarrow> 'n Context option" where
  "mloop ab pre eff sel ctx s pPrev [] = Some ctx"
| "mloop ab pre eff sel ctx s pPrev (x # xs) =
     (if ab then None
      else
        case pre x s of
          None \<Rightarrow> None
        | Some s' \<Rightarrow>
            if sel 0 then
              (case apply_effect (eff pPrev x) ctx of
                 None \<Rightarrow> None
               | Some ctx' \<Rightarrow> mloop ab pre eff (\<lambda>j. sel (Suc j)) ctx' s' (Some x) xs)
            else mloop ab pre eff (\<lambda>j. sel (Suc j)) ctx s' (Some x) xs)"

definition cmask :: "nat \<Rightarrow> nat \<Rightarrow> nat \<Rightarrow> bool" where
  "cmask N i j \<longleftrightarrow> j mod N = i"

fun ctr :: "u32 \<Rightarrow> u32 \<Rightarrow> nat \<Rightarrow> u32" where
  "ctr nV iV 0 = iV"
| "ctr nV iV (Suc n) = ctr nV (if iV \<noteq> 0 then iV - 1 else nV - 1) n"

definition check_height :: "'n Context \<Rightarrow> 'n Context option" where
  "check_height ctx = (if IsEmpty (c_Height ctx) then None else Some ctx)"

definition VSm ::
  "('n::ab_group_add, 'sg, 'cf, 'pb) ECC \<Rightarrow> Rules \<Rightarrow> bool \<Rightarrow> bool \<Rightarrow> (nat \<Rightarrow> bool)
     \<Rightarrow> 'n Context \<Rightarrow> 'a TxBase_scheme \<Rightarrow> ('sg, 'cf, 'pb) IReader \<Rightarrow> 'n Context option" where
  "VSm ecc rules ab bm sel ctx txb r =
     (let n1 = length (m_pUtxoIn r);
          n2 = n1 + length (m_pKernelIn r);
          n3 = n2 + length (m_pUtxoOut r);
          n4 = n3 + length (m_pKernelOut r)
      in
      Option.bind (check_height ctx) (\<lambda>ctx.
      Option.bind (mloop ab (\<lambda>x s. Some s) (effect_in ecc) sel
                     (neg_Sigma ctx) () None (m_pUtxoIn r)) (\<lambda>ctx.
      Option.bind (mloop ab (locate_kernel_out ecc) (effect_kin ecc) (\<lambda>j. sel (j + n1))
                     ctx (m_pKernelOut r) None (m_pKernelIn r)) (\<lambda>ctx.
      Option.bind (mloop ab (\<lambda>x s. Some s) (effect_out ecc rules bm) (\<lambda>j. sel (j + n2))
                     (neg_Sigma ctx) () None (m_pUtxoOut r)) (\<lambda>ctx.
      Option.bind (mloop ab (\<lambda>x s. Some s) (effect_kout ecc) (\<lambda>j. sel (j + n3))
                     ctx () None (m_pKernelOut r)) (\<lambda>ctx.
      Option.bind (if sel n4
                   then apply_effect
                          (Some (G_mul ecc (m_Offset txb), AmountBig_zero, AmountBig_zero, None))
                          ctx
                   else Some ctx)
        check_height))))))"

text \<open>
  \<open>set_verifier\<close> sets the two verifier members of a context.  Two contexts are related
  by \<open>shard_rel\<close> when they agree on the block mode and, in block mode, on the height
  range; three functions on contexts are related by \<open>mcompat\<close> when merging the outcomes
  of the first two, on related contexts, is the third applied to the merged contexts.
\<close>

definition set_verifier :: "u32 \<Rightarrow> u32 \<Rightarrow> 'n Context \<Rightarrow> 'n Context" where
  "set_verifier n i c = c\<lparr>c_nVerifiers := n, c_iVerifier := i\<rparr>"

definition shard_rel :: "'n Context \<Rightarrow> 'n Context \<Rightarrow> bool" where
  "shard_rel a b \<longleftrightarrow>
     c_bBlockMode a = c_bBlockMode b \<and> (c_bBlockMode a \<longrightarrow> c_Height a = c_Height b)"

definition mcompat ::
  "('n::ab_group_add Context \<Rightarrow> 'n Context option) \<Rightarrow> ('n Context \<Rightarrow> 'n Context option)
     \<Rightarrow> ('n Context \<Rightarrow> 'n Context option) \<Rightarrow> bool" where
  "mcompat f1 f2 f \<longleftrightarrow>
     (\<forall>a b. shard_rel a b \<longrightarrow>
        merge_opt (f1 a) (f2 b) = Option.bind (Merge a b) f
        \<and> (\<forall>a' b'. f1 a = Some a' \<longrightarrow> f2 b = Some b' \<longrightarrow> shard_rel a' b'))"

section \<open>A concrete instance of the primitives\<close>

text \<open>
  To evaluate the functions on concrete inputs, the group of curve points is replaced by
  the integers: a point imports to its x coordinate when its flag is set, signatures and
  range proofs are natural numbers and the valid ones are 0, comparison is by numeric
  order, and every hash is 0.
\<close>

definition ecc0 :: "(int, nat, nat, nat) ECC" where
  "ecc0 = \<lparr>Point_Import = (\<lambda>p. if m_bQuadraticResidue p then Some (uint (m_X p)) else None),
     Point_cmp = (\<lambda>a b. if m_X a < m_X b then - 1 else if m_X b < m_X a then 1 else 0),
     Signature_cmp = (\<lambda>a b. if a < b then - 1 else if b < a then 1 else 0),
     Confidential_cmp = (\<lambda>a b. if a < b then - 1 else if b < a then 1 else 0),
     Public_cmp = (\<lambda>a b. if m_Value a < m_Value b then - 1
                          else if m_Value b < m_Value a then 1 else 0),
     Confidential_IsValid = (\<lambda>c n h. c = 0),
     Public_IsValid = (\<lambda>p n h. m_Opaque p = 0),
     Signature_IsValid = (\<lambda>s h n. s = 0),
     Point_mul = (\<lambda>n k. n * uint k),
     G_mul = (\<lambda>s. 1000 * uint s),
     H_mul = (\<lambda>a. uint a),
     H_Big_mul = (\<lambda>s. uint s),
     Hash_Processor = (\<lambda>xs. 0)\<rparr>"

definition rules0 :: Rules where
  "rules0 = \<lparr>CoinbaseEmission = 80, MaturityCoinbase = 60, MaturityStd = 0,
     AllowPublicUtxos = False, FakePoW = True\<rparr>"

definition pt0 :: "nat \<Rightarrow> Point" where
  "pt0 n = \<lparr>m_X = of_nat n, m_bQuadraticResidue = True\<rparr>"

text \<open>Concrete items: an input and an output with the same commitment and maturity.\<close>

definition inA :: Input where
  "inA = \<lparr>m_Commitment = pt0 5, m_Maturity = 3\<rparr>"

definition outA :: "(nat, nat) Output" where
  "outA = \<lparr>m_Commitment = pt0 5, m_Maturity = 3, m_Coinbase = False, m_Incubation = 0,
      m_pConfidential = Some 0, m_pPublic = None\<rparr>"

text \<open>
  A kernel, a reader that delivers it as an input kernel, a reader that delivers it as an
  output kernel, and the empty writer.
\<close>

definition krn :: "nat TxKernel" where
  "krn = TxKernel (pt0 5) 0 3 10 \<lparr>m_Min = 1, m_Max = 9\<rparr> None []"

definition rd_in :: "(nat, nat, nat) IReader" where
  "rd_in = \<lparr>m_pUtxoIn = [], m_pUtxoOut = [], m_pKernelIn = [krn], m_pKernelOut = []\<rparr>"

definition rd_out :: "(nat, nat, nat) IReader" where
  "rd_out = \<lparr>m_pUtxoIn = [], m_pUtxoOut = [], m_pKernelIn = [], m_pKernelOut = [krn]\<rparr>"

definition w0 :: "(nat, nat, nat) IWriter" where
  "w0 = \<lparr>w_UtxoIn = [], w_UtxoOut = [], w_KernelIn = [], w_KernelOut = []\<rparr>"

text \<open>
  A block context over heights 1 to 3 with emission 10 and coinbase maturity 1: the
  subsidy is 30, the commitments sum to 30 and the coinbase outputs seen are worth 10.
\<close>

definition rules1 :: Rules where
  "rules1 = \<lparr>CoinbaseEmission = 10, MaturityCoinbase = 1, MaturityStd = 0,
     AllowPublicUtxos = False, FakePoW = True\<rparr>"

definition ctx1 :: "int Context" where
  "ctx1 = \<lparr>c_Sigma = 30, c_Fee = \<lparr>Lo = 0, Hi = 0\<rparr>, c_Coinbase = \<lparr>Lo = 10, Hi = 0\<rparr>,
     c_Height = \<lparr>m_Min = 1, m_Max = 3\<rparr>, c_bBlockMode = True, c_nVerifiers = 1,
     c_iVerifier = 0, c_pAbort = None\<rparr>"

definition bb1 :: BodyBase where
  "bb1 = \<lparr>m_Offset = 0, m_Subsidy = \<lparr>Lo = 30, Hi = 0\<rparr>, m_SubsidyClosing = False\<rparr>"

text \<open>
  Two oracles over a counter: \<open>get0\<close> returns the counter and increments it, \<open>get1\<close>
  returns 3 for ever.  \<open>s0\<close> is a sampler with \<open>m_Begin = 256\<close> and
  \<open>m_End = 512\<close>.
\<close>

definition get0 :: "nat \<Rightarrow> Raw \<times> nat" where
  "get0 n = (of_nat n, n + 1)"

definition get1 :: "nat \<Rightarrow> Raw \<times> nat" where
  "get1 n = (3, n + 1)"

definition s0 :: "nat Sampler" where
  "s0 = \<lparr>m_Oracle = 5, m_Begin = 256, m_End = 512, m_LowerBound = 0\<rparr>"

text \<open>
  A chain of two states under constants with an 8-bit mantissa: packed difficulty 0 is the
  raw difficulty 256, the tip at height 2 has chain work 512 and the state at height 1
  has chain work 256.  Every hash is 0, the oracle is \<open>get0\<close> seeded with 5, and the
  verifier accepts everything.  \<open>s1\<close> is the sampler after the first sampled state.
\<close>

definition consts8 :: Difficulty_consts where
  "consts8 = \<lparr>s_MantissaBits = 8, s_MaxOrder = 200, s_Inf = 51456\<rparr>"

definition env0 :: "(nat, nat, nat) Env" where
  "env0 = \<lparr>PoW_IsValid = (\<lambda>p h. True), PoW_items = (\<lambda>w. []), Processor = (\<lambda>xs. 0),
     Oracle_seed = (\<lambda>h. 5), Oracle_get = get0,
     Verifier_init = (\<lambda>d n. 0), Verifier_Process = (\<lambda>rk v h i. v + 1),
     Verifier_bVerify = (\<lambda>v. True), Verifier_get_Pos = (\<lambda>v. v)\<rparr>"

definition st_tip :: "nat Full" where
  "st_tip = \<lparr>m_Height_st = 2, m_Prev = 0, m_ChainWork = 512, m_Definition = 0,
     m_TimeStamp = 0, m_PoW = \<lparr>m_Difficulty = 0, m_Solution = 0\<rparr>\<rparr>"

definition st_gen :: "nat Full" where
  "st_gen = \<lparr>m_Height_st = 1, m_Prev = 0, m_ChainWork = 256, m_Definition = 0,
     m_TimeStamp = 0, m_PoW = \<lparr>m_Difficulty = 0, m_Solution = 0\<rparr>\<rparr>"

definition cwp0 :: "nat ChainWorkProof" where
  "cwp0 = \<lparr>m_vStates = [st_tip, st_gen], m_Proof = [], m_LowerBound_cwp = 0, m_hvRootLive = 0\<rparr>"

definition s1 :: "nat Sampler" where
  "s1 = \<lparr>m_Oracle = 6, m_Begin = 0, m_End = 512, m_LowerBound = 0\<rparr>"

text \<open>
  A transaction for two verifiers: the input \<open>inA\<close>, the output \<open>outA\<close>, one output
  kernel with a valid signature, the offset 2, and a context as \<open>Reset\<close> leaves it, with the
  height range 0 to 20.
\<close>

definition krn2 :: "nat TxKernel" where
  "krn2 = TxKernel (pt0 7) 0 0 10 \<lparr>m_Min = 1, m_Max = 9\<rparr> None []"

definition rd2 :: "(nat, nat, nat) IReader" where
  "rd2 = \<lparr>m_pUtxoIn = [inA], m_pUtxoOut = [outA], m_pKernelIn = [], m_pKernelOut = [krn2]\<rparr>"

definition ctx2 :: "int Context" where
  "ctx2 = \<lparr>c_Sigma = 0, c_Fee = AmountBig_zero, c_Coinbase = AmountBig_zero,
     c_Height = \<lparr>m_Min = 0, m_Max = 20\<rparr>, c_bBlockMode = False, c_nVerifiers = 1,
     c_iVerifier = 0, c_pAbort = None\<rparr>"

definition txb2 :: TxBase where
  "txb2 = \<lparr>m_Offset = 2\<rparr>"

section \<open>Properties\<close>

subsection \<open>Saturating height arithmetic\<close>

lemma unat_max_u64: "unat (- 1 :: 64 word) = 18446744073709551615"
  by (simp add: unsigned_minus_1_eq_mask mask_eq_exp_minus_1)

lemma unat_HeightAdd: "unat (HeightAdd a b) = min (unat a + unat b) (2 ^ 64 - 1)"
proof -
  have a: "unat a < 2 ^ 64" and b: "unat b < 2 ^ 64"
    using unsigned_less [of a] unsigned_less [of b] by simp_all
  show ?thesis
  proof (cases "unat a + unat b < 2 ^ 64")
    case True
    then show ?thesis
      by (simp add: HeightAdd_def Let_def word_less_nat_alt unat_plus_if')
  next
    case False
    then have "unat a + unat b - 18446744073709551616 < unat b" using a by simp
    then show ?thesis using False
      by (simp add: HeightAdd_def Let_def word_less_nat_alt unat_plus_if' unat_max_u64)
  qed
qed

text \<open>
  C9.  For every output and creation height \<open>h\<close>, \<open>get_MinMaturity\<close> is the exact
  sum, over the natural numbers, of \<open>h\<close>, the maturity period of the output's kind and
  its incubation, cut off at \<open>MaxHeight\<close>: the 64-bit additions never wrap around to a
  smaller height.
\<close>

theorem get_MinMaturity_saturating:
  "unat (get_MinMaturity rules out h) =
     min (unat h + unat (if m_Coinbase out then MaturityCoinbase rules else MaturityStd rules)
            + unat (m_Incubation out)) (unat MaxHeight)"
  by (simp add: get_MinMaturity_def Let_def unat_HeightAdd MaxHeight_def unat_max_u64)

subsection \<open>Difficulty round trip\<close>

lemma mant_bits_lt:
  fixes mantissa :: u32
  assumes "2 ^ n \<le> unat mantissa"
  shows "n < 32"
proof (rule ccontr)
  assume "\<not> n < 32"
  then have "(2::nat) ^ 32 \<le> 2 ^ n" by (intro power_increasing) simp_all
  moreover have "unat mantissa < 2 ^ 32" using unsigned_less [of mantissa] by simp
  ultimately show False using assms by linarith
qed

lemma bits_of_small:
  fixes w :: u32
  assumes "unat w < 2 ^ m" and "bit w j"
  shows "j < m"
proof -
  have "unat (take_bit m w) = unat w"
    using assms(1) by (simp add: unsigned_take_bit_eq take_bit_nat_eq_self)
  then have "take_bit m w = w" by (simp add: word_unat_eq_iff)
  then have "bit (take_bit m w) j" using assms(2) by simp
  then show ?thesis by (simp add: bit_take_bit_iff)
qed

text \<open>
  C8.  For every order up to \<open>s_MaxOrder\<close> and every mantissa whose leading bit is bit
  \<open>s_MantissaBits\<close>, \<open>Pack\<close> succeeds and \<open>Unpack\<close> of the packed value gives the
  order and the mantissa back.
\<close>

theorem Unpack_Pack_roundtrip:
  assumes ok: "consts_ok dc" and ord: "order \<le> s_MaxOrder dc"
    and lo: "2 ^ s_MantissaBits dc \<le> unat mantissa"
    and hi: "unat mantissa < 2 ^ (s_MantissaBits dc + 1)"
  shows "\<exists>p. Pack dc order mantissa = Some p \<and> Unpack dc p = (order, mantissa)"
proof -
  define n where "n = s_MantissaBits dc"
  have n32: "n < 32" using lo mant_bits_lt unfolding n_def by blast
  have top: "drop_bit n mantissa = 1"
  proof -
    have "unat (drop_bit n mantissa) = unat mantissa div 2 ^ n"
      by (metis unat_drop_bit_eq drop_bit_eq_div)
    also have "\<dots> = 1" using lo hi unfolding n_def
      by (simp add: div_nat_eqI)
    finally show ?thesis by (metis unat_1 word_unat_eq_iff)
  qed
  have mtop: "bit mantissa n"
    using top bit_drop_bit_eq [of n mantissa]
    by (metis add.right_neutral bit_1_0 bit_iff_odd_drop_bit odd_one)
  have mbits: "bit mantissa j \<Longrightarrow> j \<le> n" for j
  proof (rule ccontr)
    assume b: "bit mantissa j" and "\<not> j \<le> n"
    then have "bit (drop_bit n mantissa) (j - n)" "j - n \<noteq> 0"
      by (simp_all add: bit_drop_bit_eq)
    then show False unfolding top by (simp add: bit_1_iff)
  qed
  have "unat order < unat (drop_bit n (s_Inf dc))"
    using ok ord unfolding consts_ok_def n_def by (simp add: word_less_nat_alt word_le_nat_alt)
  also have "\<dots> = unat (s_Inf dc) div 2 ^ n"
    by (metis unat_drop_bit_eq drop_bit_eq_div)
  also have "\<dots> < 2 ^ (32 - n)"
  proof -
    have "unat (s_Inf dc) < 2 ^ n * 2 ^ (32 - n)"
      using unsigned_less [of "s_Inf dc"] n32 by (simp flip: power_add)
    then show ?thesis by (simp add: less_mult_imp_div_less mult.commute)
  qed
  finally have osmall: "unat order < 2 ^ (32 - n)" .
  have obits: "bit order j \<Longrightarrow> n + j < 32" for j
    using bits_of_small [OF osmall, of j] by simp
  let ?p = "(mantissa AND (push_bit n 1 - 1)) OR push_bit n order"
  have pk: "Pack dc order mantissa = Some ?p"
    using ord top by (simp add: Pack_def n_def Let_def)
  have msk: "push_bit n (1::u32) - 1 = mask n"
    by (simp add: mask_eq_exp_minus_1)
  have u1: "drop_bit n ?p = order"
    unfolding msk
    by (rule bit_word_eqI) (use obits n32 in \<open>auto simp: bit_simps\<close>)
  have u2: "push_bit n 1 OR (?p AND (push_bit n 1 - 1)) = mantissa"
    unfolding msk
    by (rule bit_word_eqI)
      (use mbits mtop n32 in \<open>auto simp: bit_simps dest: order_le_imp_less_or_eq\<close>)
  show ?thesis using pk u1 u2 by (simp add: Unpack_def Let_def n_def)
qed

text \<open>
  The round trip at the constants \<open>beam_consts\<close>, for order 100 and mantissa
  \<open>2 ^ 24 + 5\<close>.
\<close>

theorem Unpack_Pack_roundtrip_witness:
  "consts_ok beam_consts \<and> (100 :: u32) \<le> s_MaxOrder beam_consts
   \<and> 2 ^ s_MantissaBits beam_consts \<le> unat (16777221 :: u32)
   \<and> unat (16777221 :: u32) < 2 ^ (s_MantissaBits beam_consts + 1)
   \<and> (\<exists>p. Pack beam_consts 100 16777221 = Some p \<and> Unpack beam_consts p = (100, 16777221))"
proof -
  have a: "consts_ok beam_consts"
    by (simp add: consts_ok_def beam_consts_def drop_bit_eq_div)
  have b: "(100 :: u32) \<le> s_MaxOrder beam_consts"
    by (simp add: beam_consts_def)
  have c: "2 ^ s_MantissaBits beam_consts \<le> unat (16777221 :: u32)"
    by (simp add: beam_consts_def)
  have d: "unat (16777221 :: u32) < 2 ^ (s_MantissaBits beam_consts + 1)"
    by (simp add: beam_consts_def)
  from Unpack_Pack_roundtrip [OF a b c d] a b c d show ?thesis by blast
qed

subsection \<open>Output validity\<close>

text \<open>
  C7.  \<open>Output::IsValid\<close> returns false for an output that carries both proofs or
  neither, for a coinbase output with a confidential proof, and for a non-coinbase output
  with a public proof when \<open>AllowPublicUtxos\<close> is off.  In every other case it returns
  false when the commitment does not import, and otherwise returns the validity of the one
  proof the output carries, checked against the imported commitment (which it leaves in
  its argument).
\<close>

theorem Output_IsValid_cases:
  "Output_IsValid ecc rules out =
     (if (m_pConfidential out \<noteq> None \<and> m_pPublic out \<noteq> None)
         \<or> (m_pConfidential out = None \<and> m_pPublic out = None)
         \<or> (m_Coinbase out \<and> m_pConfidential out \<noteq> None)
         \<or> (m_pPublic out \<noteq> None \<and> \<not> m_Coinbase out \<and> \<not> AllowPublicUtxos rules)
      then None
      else case Point_Import ecc (m_Commitment out) of
             None \<Rightarrow> None
           | Some comm \<Rightarrow>
               if (case m_pConfidential out of
                     Some conf \<Rightarrow> Confidential_IsValid ecc conf comm (m_Incubation out)
                   | None \<Rightarrow>
                       (case m_pPublic out of
                          Some pub \<Rightarrow> Public_IsValid ecc pub comm (m_Incubation out)
                        | None \<Rightarrow> False))
               then Some comm else None)"
  by (auto simp: Output_IsValid_def split: option.splits)

text \<open>A coinbase output with a valid public proof is accepted; with both proofs it is not.\<close>

theorem Output_IsValid_cases_witness:
  "Output_IsValid ecc0 rules0
     \<lparr>m_Commitment = pt0 7, m_Maturity = 0, m_Coinbase = True, m_Incubation = 0,
      m_pConfidential = None, m_pPublic = Some \<lparr>m_Value = 80, m_Opaque = 0\<rparr>\<rparr> = Some 7
   \<and> Output_IsValid ecc0 rules0
     \<lparr>m_Commitment = pt0 7, m_Maturity = 0, m_Coinbase = False, m_Incubation = 0,
      m_pConfidential = Some 0, m_pPublic = Some \<lparr>m_Value = 80, m_Opaque = 0\<rparr>\<rparr> = None"
  using Output_IsValid_cases [of ecc0 rules0]
  by (simp add: ecc0_def rules0_def pt0_def)

subsection \<open>The kernel comparison and the hash lock\<close>

lemma cmp_nested_zero:
  "list_all2 (\<lambda>x y. TxKernel_cmp ecc x y = 0) xs ys \<Longrightarrow> cmp_nested ecc xs ys = 0"
  by (induction xs ys rule: list_all2_induct) simp_all

text \<open>
  C10.  Two kernels whose excesses and signatures compare equal, whose multipliers, fees
  and height bounds are equal and whose nested lists compare equal element by element
  compare equal, whatever their hash locks are: \<open>TxKernel::cmp\<close> never reads
  \<open>m_pHashLock\<close>.
\<close>

theorem TxKernel_cmp_ignores_hash_lock:
  assumes "Point_cmp ecc (m_Excess a) (m_Excess b) = 0"
    and "m_Multiplier a = m_Multiplier b"
    and "Signature_cmp ecc (m_Signature a) (m_Signature b) = 0"
    and "m_Fee a = m_Fee b"
    and "m_Min (m_Height a) = m_Min (m_Height b)"
    and "m_Max (m_Height a) = m_Max (m_Height b)"
    and "list_all2 (\<lambda>x y. TxKernel_cmp ecc x y = 0) (m_vNested a) (m_vNested b)"
  shows "TxKernel_cmp ecc a b = 0"
proof (cases a)
  case A: (TxKernel ex mu sg fee h hl ns)
  show ?thesis
  proof (cases b)
    case B: (TxKernel ex' mu' sg' fee' h' hl' ns')
    from assms show ?thesis
      unfolding A B by (simp add: cmp_nested_zero)
  qed
qed

text \<open>
  Two kernels that differ only in their hash locks (one has a preimage, the other has
  none), each with one nested kernel, the nested kernels differing in their preimages.
\<close>

theorem TxKernel_cmp_ignores_hash_lock_witness:
  "TxKernel_cmp ecc0
     (TxKernel (pt0 5) 0 3 10 \<lparr>m_Min = 1, m_Max = 9\<rparr> (Some 77)
        [TxKernel (pt0 6) 0 4 0 \<lparr>m_Min = 0, m_Max = 9\<rparr> (Some 1) []])
     (TxKernel (pt0 5) 0 3 10 \<lparr>m_Min = 1, m_Max = 9\<rparr> None
        [TxKernel (pt0 6) 0 4 0 \<lparr>m_Min = 0, m_Max = 9\<rparr> (Some 2) []]) = 0"
proof -
  let ?n1 = "TxKernel (pt0 6) 0 (4::nat) 0 \<lparr>m_Min = 0, m_Max = 9\<rparr> (Some 1) []"
  let ?n2 = "TxKernel (pt0 6) 0 (4::nat) 0 \<lparr>m_Min = 0, m_Max = 9\<rparr> (Some 2) []"
  have n: "TxKernel_cmp ecc0 ?n1 ?n2 = 0"
    by (rule TxKernel_cmp_ignores_hash_lock) (simp_all add: ecc0_def)
  show ?thesis
    by (rule TxKernel_cmp_ignores_hash_lock)
      (simp_all add: n del: TxKernel_cmp.simps, simp_all add: ecc0_def)
qed

subsection \<open>\<open>DeleteIntermediateOutputs\<close>\<close>

lemma DeleteIntermediateOutputs_outer_at_end:
  "DeleteIntermediateOutputs_outer ecc ins outs nDel (length outs) i0 = Inr (ins, outs, nDel)"
proof (induction "length ins - i0" arbitrary: i0)
  case 0
  then show ?case by simp
next
  case (Suc k)
  then have "i0 < length ins" "k = length ins - (i0 + 1)" by simp_all
  then show ?case
    using Suc.hyps(1) [of "i0 + 1"]
    by (subst DeleteIntermediateOutputs_outer.simps)
      (simp del: DeleteIntermediateOutputs_outer.simps)
qed

lemma DeleteIntermediateOutputs_deletes_nothing:
  "DeleteIntermediateOutputs ecc txv = Inr (0, txv)"
  by (simp add: DeleteIntermediateOutputs_def DeleteIntermediateOutputs_outer_at_end
      del: DeleteIntermediateOutputs_outer.simps)

text \<open>
  C5.  On the transaction with the single input \<open>inA\<close> and the single output \<open>outA\<close>,
  which have equal commitment and maturity (\<open>cmp_CaM\<close> is 0),
  \<open>DeleteIntermediateOutputs\<close> returns 0 and leaves both in place: the output index
  starts at the end of the output vector, so the inner loop never runs and no pair is ever
  removed.
\<close>

theorem DeleteIntermediateOutputs_keeps_matching_pair:
  "cmp_CaM ecc0 inA outA = 0 \<and>
   DeleteIntermediateOutputs ecc0
     \<lparr>m_vInputs = [Some inA], m_vOutputs = [Some outA],
      m_vKernelsInput = [], m_vKernelsOutput = []\<rparr>
   = Inr (0, \<lparr>m_vInputs = [Some inA], m_vOutputs = [Some outA],
              m_vKernelsInput = [], m_vKernelsOutput = []\<rparr>)"
  by (simp add: DeleteIntermediateOutputs_deletes_nothing cmp_CaM_def ecc0_def inA_def
      outA_def pt0_def)

subsection \<open>\<open>Combine\<close> on a matching pair of kernels\<close>

lemma krn_self: "TxKernel_cmp ecc0 krn krn = 0"
  by (simp add: krn_def ecc0_def)

lemma select_kernel_in:
  "select_min (\<lambda>a b. TxKernel_cmp ecc0 a b > 0)
     (map (\<lambda>r. cursor (m_pKernelIn r)) [rd_in, rd_out]) = Some (krn, 0)"
  by (simp add: select_min_def select_step_def cursor_def rd_in_def rd_out_def upt_rec [of 0]
      del: TxKernel_cmp.simps)

lemma select_kernel_out:
  "select_min (\<lambda>a b. TxKernel_cmp ecc0 a b > 0)
     (map (\<lambda>r. cursor (m_pKernelOut r)) [rd_in, rd_out]) = Some (krn, 1)"
  by (simp add: select_min_def select_step_def cursor_def rd_in_def rd_out_def upt_rec [of 0]
      upt_rec [of 1] del: TxKernel_cmp.simps)

lemma advance_utxo_of_exhausted:
  "NextUtxoIn rd_in = rd_in" "NextUtxoOut rd_out = rd_out"
  by (simp_all add: NextUtxoIn_def NextUtxoOut_def rd_in_def rd_out_def)

text \<open>
  The kernel loop on the two readers steps to the same state again: by the induction
  principle of the loop, it returns nothing.
\<close>

lemma Combine_kernels_no_result:
  assumes "Combine_kernels ecc b rs w = Some y"
  shows "\<not> (ecc = ecc0 \<and> b = False \<and> rs = [rd_in, rd_out])"
proof (rule Combine_kernels.raw_induct
    [where P = "\<lambda>ecc b rs w y. \<not> (ecc = ecc0 \<and> b = False \<and> rs = [rd_in, rd_out])",
      OF _ assms])
  fix f :: "(int, nat, nat, nat) ECC \<Rightarrow> bool \<Rightarrow> (nat, nat, nat) IReader list
      \<Rightarrow> (nat, nat, nat) IWriter
      \<Rightarrow> (bool \<times> (nat, nat, nat) IReader list \<times> (nat, nat, nat) IWriter) option"
    and ecc b rs w y
  assume ih: "\<And>ecc b rs w y. f ecc b rs w = Some y
      \<Longrightarrow> \<not> (ecc = ecc0 \<and> b = False \<and> rs = [rd_in, rd_out])"
  assume body: "(if b then Some (False, rs, w)
      else case select_min (\<lambda>a b. 0 < TxKernel_cmp ecc a b)
                 (map (\<lambda>r. cursor (m_pKernelIn r)) rs) of
           None \<Rightarrow>
             case select_min (\<lambda>a b. 0 < TxKernel_cmp ecc a b)
                   (map (\<lambda>r. cursor (m_pKernelOut r)) rs) of
             None \<Rightarrow> Some (True, rs, w)
             | Some (out, iOut) \<Rightarrow>
                 f ecc b
                  (rs[iOut := NextKernelOut (rs ! iOut)])
                  (w\<lparr>w_KernelOut := w_KernelOut w @ [out]\<rparr>)
           | Some (inp, iInp) \<Rightarrow>
               case select_min (\<lambda>a b. 0 < TxKernel_cmp ecc a b)
                     (map (\<lambda>r. cursor (m_pKernelOut r)) rs) of
               None \<Rightarrow>
                 f ecc b
                  (rs[iInp := NextKernelIn (rs ! iInp)])
                  (w\<lparr>w_KernelIn := w_KernelIn w @ [inp]\<rparr>)
               | Some (out, iOut) \<Rightarrow>
                   let n = TxKernel_cmp ecc inp out
                   in if 0 < n
                      then f ecc b
                            (rs[iOut := NextKernelOut (rs ! iOut)])
                            (w\<lparr>w_KernelOut := w_KernelOut w @ [out]\<rparr>)
                      else if n = 0
                           then let rs1 = rs[iInp := NextUtxoIn (rs ! iInp)]
                                in f ecc b
                                    (rs1[iOut := NextUtxoOut (rs1 ! iOut)])
                                    w
                           else f ecc b
                                 (rs[iInp := NextKernelIn (rs ! iInp)])
                                 (w\<lparr>w_KernelIn := w_KernelIn w @ [inp]\<rparr>)) =
     Some y"
  show "\<not> (ecc = ecc0 \<and> b = False \<and> rs = [rd_in, rd_out])"
  proof
    assume a: "ecc = ecc0 \<and> b = False \<and> rs = [rd_in, rd_out]"
    then have e: "ecc = ecc0" "b = False" "rs = [rd_in, rd_out]" by simp_all
    from body [unfolded e select_kernel_in select_kernel_out]
    have "f ecc0 False [rd_in, rd_out] w = Some y"
      by (simp add: krn_self advance_utxo_of_exhausted Let_def del: TxKernel_cmp.simps)
    with ih show False by blast
  qed
qed

lemma Combine_kernels_diverges: "Combine_kernels ecc0 False [rd_in, rd_out] w = None"
  using Combine_kernels_no_result [of ecc0 False "[rd_in, rd_out]" w]
  by (cases "Combine_kernels ecc0 False [rd_in, rd_out] w") auto

lemma Combine_utxo_nothing_to_do:
  "Combine_utxo ecc0 False [rd_in, rd_out] w0 = Some (True, [rd_in, rd_out], w0)"
  by (subst Combine_utxo.simps)
    (simp add: select_min_def select_step_def cursor_def rd_in_def rd_out_def upt_rec [of 0]
      upt_rec [of 1])

text \<open>
  C6.  On two readers, one delivering the kernel \<open>krn\<close> as an input kernel and the other
  delivering the same kernel as an output kernel, with the stop flag clear, \<open>Combine\<close>
  never returns: on the match it advances the UTXO cursors of the two readers, the kernel
  cursors stay where they are, and the loop finds the same match again.
\<close>

theorem Combine_kernel_match_never_returns:
  "TxKernel_cmp ecc0 krn krn = 0 \<and> Combine ecc0 False [rd_in, rd_out] w0 = None"
  by (simp add: Combine_def Combine_utxo_nothing_to_do Combine_kernels_diverges krn_self)

subsection \<open>Block validity with a closed subsidy\<close>

lemma unat_lt_64: "unat (x :: 64 word) < 18446744073709551616"
  using unsigned_less [of x, where 'a = nat] by simp

lemma unat_ucast_64_256: "unat (ucast (x :: 64 word) :: 256 word) = unat x"
proof -
  have "unat x < 2 ^ 256"
    using unat_lt_64 [of x] by simp
  then show ?thesis
    by (simp add: unsigned_ucast_eq take_bit_nat_eq_self)
qed

lemma unat_push64: "unat (push_bit 64 (ucast (x :: 64 word)) :: 256 word) = 2 ^ 64 * unat x"
proof -
  have "unat x * 18446744073709551616 < 2 ^ 256" using unat_lt_64 [of x] by simp
  then have "unat ((ucast x :: 256 word) * 18446744073709551616) = unat x * 18446744073709551616"
    by (simp add: unat_word_ariths unat_ucast_64_256)
  then show ?thesis
    by (simp add: push_bit_eq_mult)
qed

lemma unat_Export: "unat (Export a) = amount_of a"
proof -
  have "(ucast (Lo a) :: 256 word) + push_bit 64 (ucast (Hi a))
      = ucast (Lo a) OR push_bit 64 (ucast (Hi a))"
    by (rule disjunctive_add) (auto simp: bit_simps dest: bit_imp_le_length)
  then have "unat (Export a) = unat ((ucast (Lo a) :: 256 word) + push_bit 64 (ucast (Hi a)))"
    by (simp add: Export_def)
  also have "\<dots> = unat (Lo a) + 2 ^ 64 * unat (Hi a)"
  proof -
    have "unat (Lo a) < 2 ^ 64" "unat (Hi a) < 2 ^ 64"
      using unat_lt_64 [of "Lo a"] unat_lt_64 [of "Hi a"] by simp_all
    then have "unat (Lo a) + 2 ^ 64 * unat (Hi a) < 2 ^ 256" by simp
    then show ?thesis
      by (simp add: unat_plus_if' unat_ucast_64_256 unat_push64)
  qed
  finally show ?thesis by (simp add: amount_of_def)
qed

lemma unat_mul_64:
  "unat ((ucast (n :: 64 word) :: 256 word) * ucast (e :: 64 word)) = unat n * unat e"
proof -
  have "unat n < 2 ^ 64" "unat e < 2 ^ 64"
    using unat_lt_64 [of n] unat_lt_64 [of e] by simp_all
  then have "unat n * unat e < 2 ^ 64 * 2 ^ 64"
    by (intro mult_strict_mono) simp_all
  then have "unat n * unat e < 2 ^ 256" by simp
  then show ?thesis
    using unat_mult_lem [of "ucast n :: 256 word" "ucast e"] by (simp add: unat_ucast_64_256)
qed

lemma IsValidBlock_iff:
  "fst (IsValidBlock ecc rules ctx bb False) \<longleftrightarrow>
     AddTo ecc (m_Subsidy bb) (- c_Sigma ctx) = 0 \<and> \<not> m_SubsidyClosing bb \<and>
     amount_of (m_Subsidy bb) \<le> nBlocksInRange ctx * unat (CoinbaseEmission rules) \<and>
     (if nBlocksInRange ctx > unat (MaturityCoinbase rules)
      then amount_of (m_Subsidy bb) \<le> amount_of (c_Coinbase ctx)
             + (nBlocksInRange ctx - unat (MaturityCoinbase rules)) * unat (CoinbaseEmission rules)
      else amount_of (m_Subsidy bb) \<le> amount_of (c_Coinbase ctx))"
proof -
  define n where "n = m_Max (c_Height ctx) - m_Min (c_Height ctx) + 1"
  define S where "S = Export (m_Subsidy bb)"
  define C where "C = Export (c_Coinbase ctx)"
  define E where "E = CoinbaseEmission rules"
  define M where "M = MaturityCoinbase rules"
  define B where "B = (ucast (n - M) :: uintBig) * ucast E"
  have uS: "unat S = amount_of (m_Subsidy bb)" and uC: "unat C = amount_of (c_Coinbase ctx)"
    by (simp_all add: S_def C_def unat_Export)
  have un: "unat n = nBlocksInRange ctx" by (simp add: n_def nBlocksInRange_def)
  have uB: "M < n \<Longrightarrow> unat B = (unat n - unat M) * unat E"
    by (simp add: B_def unat_mul_64 unat_sub word_less_nat_alt word_le_nat_alt)
  have sub: "B < S \<Longrightarrow> unat (S + (- B)) = unat S - unat B"
    by (simp add: unat_sub word_less_nat_alt word_le_nat_alt)
  have "fst (IsValidBlock ecc rules ctx bb False) \<longleftrightarrow>
     AddTo ecc (m_Subsidy bb) (- c_Sigma ctx) = 0 \<and> \<not> m_SubsidyClosing bb \<and>
     \<not> (S > ucast n * ucast E) \<and>
     (if n > M then (if S > B then S + (- B) else 0) \<le> C else S \<le> C)"
    by (simp add: IsValidBlock_def Let_def n_def S_def C_def E_def M_def B_def)
  also have "\<dots> \<longleftrightarrow>
     AddTo ecc (m_Subsidy bb) (- c_Sigma ctx) = 0 \<and> \<not> m_SubsidyClosing bb \<and>
     unat S \<le> unat n * unat E \<and>
     (if unat n > unat M then unat S \<le> unat C + (unat n - unat M) * unat E
      else unat S \<le> unat C)"
  proof (cases "M < n")
    case True
    then show ?thesis using uB sub
      by (auto simp: word_less_nat_alt word_le_nat_alt unat_mul_64)
  next
    case False
    then show ?thesis
      by (auto simp: word_less_nat_alt word_le_nat_alt unat_mul_64)
  qed
  finally show ?thesis by (simp add: uS uC un E_def M_def)
qed

lemma ctx1_values:
  "nBlocksInRange ctx1 = 3" "amount_of (c_Coinbase ctx1) = 10" "amount_of (m_Subsidy bb1) = 30"
  "unat (MaturityCoinbase rules1) = 1" "unat (CoinbaseEmission rules1) = 10"
  "AddTo ecc0 (m_Subsidy bb1) (- c_Sigma ctx1) = 0" "\<not> m_SubsidyClosing bb1"
  by (simp_all add: nBlocksInRange_def amount_of_def ctx1_def bb1_def rules1_def AddTo_def
      ecc0_def)

text \<open>
  C1, as the code has it.  With \<open>subsidy_open = false\<close>, \<open>IsValidBlock\<close> returns true
  exactly when: the negated commitment sum plus \<open>H \<cdot> subsidy\<close> is the zero point; the
  body is not subsidy-closing; the subsidy is at most \<open>blocks_in_range \<cdot> CoinbaseEmission\<close>;
  and the coinbase total covers the subsidy less what may have matured, that is
  \<open>subsidy \<le> coinbase + (blocks_in_range - MaturityCoinbase) \<cdot> CoinbaseEmission\<close> when
  \<open>blocks_in_range > MaturityCoinbase\<close>, and \<open>subsidy \<le> coinbase\<close> otherwise.
  \<open>blocks_in_range\<close> is the 64-bit value \<open>m_Max - m_Min + 1\<close>.
\<close>

theorem IsValidBlock_closed_subsidy:
  "fst (IsValidBlock ecc rules ctx bb False) \<longleftrightarrow>
     AddTo ecc (m_Subsidy bb) (- c_Sigma ctx) = 0 \<and> \<not> m_SubsidyClosing bb \<and>
     amount_of (m_Subsidy bb) \<le> nBlocksInRange ctx * unat (CoinbaseEmission rules) \<and>
     (if nBlocksInRange ctx > unat (MaturityCoinbase rules)
      then amount_of (m_Subsidy bb) \<le> amount_of (c_Coinbase ctx)
             + (nBlocksInRange ctx - unat (MaturityCoinbase rules)) * unat (CoinbaseEmission rules)
      else amount_of (m_Subsidy bb) \<le> amount_of (c_Coinbase ctx))"
  by (rule IsValidBlock_iff)

theorem IsValidBlock_closed_subsidy_witness:
  "fst (IsValidBlock ecc0 rules1 ctx1 bb1 False)"
  using IsValidBlock_closed_subsidy [of ecc0 rules1 ctx1 bb1]
  by (simp add: ctx1_values)

text \<open>
  The bound of the claim as stated fails on the same block: three blocks in range, maturity
  1, emission 10 and subsidy 30 would ask for a coinbase total of at least
  \<open>(3 - 1) \<cdot> 10 - (10 \<cdot> 3 - 30) = 20\<close>; the block is accepted with a coinbase total of 10.
\<close>

theorem IsValidBlock_claimed_bound_counterexample:
  "fst (IsValidBlock ecc0 rules1 ctx1 bb1 False)
   \<and> nBlocksInRange ctx1 > unat (MaturityCoinbase rules1)
   \<and> \<not> ((int (nBlocksInRange ctx1) - int (unat (MaturityCoinbase rules1)))
            * int (unat (CoinbaseEmission rules1))
          - (int (unat (CoinbaseEmission rules1)) * int (nBlocksInRange ctx1)
             - int (amount_of (m_Subsidy bb1)))
        \<le> int (amount_of (c_Coinbase ctx1)))"
  using IsValidBlock_iff [of ecc0 rules1 ctx1 bb1]
  by (simp add: ctx1_values)

subsection \<open>The sampler\<close>

lemma be_val_snoc: "be_val (bs @ [b]) = be_val bs * 256 + unat b"
  by (simp add: be_val_def)

lemma length_be_bytes: "length (be_bytes k n) = k"
  by (induction k arbitrary: n) simp_all

lemma unat_byte_of_nat: "unat (of_nat (n mod 256) :: byte) = n mod 256"
  by (simp add: unat_of_nat)

lemma be_val_be_bytes: "be_val (be_bytes k n) = n mod 256 ^ k"
proof (induction k arbitrary: n)
  case 0
  then show ?case by (simp add: be_val_def)
next
  case (Suc k)
  have "be_val (be_bytes (Suc k) n) = (n div 256) mod 256 ^ k * 256 + n mod 256"
    by (simp add: be_val_snoc Suc unat_byte_of_nat)
  also have "\<dots> = n mod 256 ^ Suc k"
    by (simp add: mod_mult2_eq mult.commute)
  finally show ?case .
qed

lemma be_val_m_pData: "be_val (m_pData v) = unat v"
proof -
  have "unat v < 256 ^ 32" using unsigned_less [of v, where 'a = nat] by simp
  then show ?thesis by (simp add: m_pData_def be_val_be_bytes)
qed

lemma from_pData_m_pData: "from_pData (m_pData v) = v"
  by (simp add: from_pData_def be_val_m_pData)

lemma foldl_be: "foldl (\<lambda>a b. a * 256 + unat b) a bs = a * 256 ^ length bs + be_val bs"
proof (induction bs arbitrary: a rule: rev_induct)
  case Nil
  then show ?case by (simp add: be_val_def)
next
  case (snoc x xs)
  then show ?case by (simp add: be_val_snoc algebra_simps)
qed

lemma be_val_Cons: "be_val (b # bs) = unat b * 256 ^ length bs + be_val bs"
  using foldl_be [of "unat b" bs] by (simp add: be_val_def)

lemma be_val_bound: "be_val bs < 256 ^ length bs"
proof (induction bs rule: rev_induct)
  case Nil
  then show ?case by (simp add: be_val_def)
next
  case (snoc x xs)
  have "unat x < 256" using unsigned_less [of x, where 'a = nat] by simp
  then show ?case using snoc by (simp add: be_val_snoc)
qed

lemma unat_byte_lt: "unat (x :: byte) < 256"
  using unsigned_less [of x, where 'a = nat] by simp




lemma unat_shr7: "unat (drop_bit 7 (x :: byte)) = unat x div 128"
  unfolding unat_drop_bit_eq drop_bit_nat_def by simp

lemma unat_shl1: "unat (push_bit 1 (x :: byte)) = 2 * (unat x mod 128)"
proof -
  have "unat (push_bit 1 x) = (unat x * 2) mod 256"
    unfolding unsigned_push_bit_eq take_bit_eq_mod push_bit_nat_def by simp
  also have "\<dots> = 2 * (unat x mod 128)"
    by (simp add: mult.commute mult_mod_right)
  finally show ?thesis .
qed

lemma nat_or_small_even:
  fixes a b :: nat
  assumes "a \<le> 1" "even b"
  shows "a OR b = a + b"
proof (cases "a = 0")
  case True then show ?thesis by simp
next
  case False
  with assms have a: "a = 1" by simp
  show ?thesis unfolding a using assms(2) one_or_eq [of b] by simp
qed

lemma unat_shr7_or:
  fixes x c :: byte
  assumes "even (unat c)"
  shows "unat (drop_bit 7 x OR c) = unat x div 128 + unat c"
proof -
  have "unat x div 128 \<le> 1" using unat_byte_lt [of x] by simp
  then show ?thesis
    unfolding unsigned_or_eq unat_shr7 using assms by (rule nat_or_small_even)
qed

lemma TakeFraction_loop_value:
  assumes "unat c = 2 * (A mod 128)"
  shows "foldl (\<lambda>a b. a * 256 + unat b) (A div 128) (TakeFraction_loop c bs)
       = foldl (\<lambda>a b. a * 256 + unat b) A bs div 128"
  using assms
proof (induction bs arbitrary: A c)
  case Nil
  then show ?case by simp
next
  case (Cons x xs)
  let ?A' = "A * 256 + unat x"
  have c_even: "even (unat c)" using Cons.prems by simp
  have A': "?A' = 128 * (A * 2) + unat x" by simp
  have n: "unat (push_bit 1 x) = 2 * (?A' mod 128)"
    unfolding unat_shl1 A' by (simp only: mod_mult_self4)
  have "A div 128 * 256 + 2 * (A mod 128) = A * 2"
    using mult_div_mod_eq [of 128 A] by linarith
  then have a': "A div 128 * 256 + unat (drop_bit 7 x OR c) = ?A' div 128"
    unfolding unat_shr7_or [OF c_even] Cons.prems A' by (simp only: div_mult_self4)
  show ?case
    using Cons.IH [OF n] by (simp add: Let_def a')
qed

lemma TakeFraction_eq: "TakeFraction v = drop_bit 7 v"
proof -
  have "be_val (TakeFraction_loop 0 (m_pData v)) = unat v div 128"
    using TakeFraction_loop_value [of 0 0 "m_pData v"] by (simp add: be_val_def [symmetric] be_val_m_pData)
  moreover have "unat v div 128 < 2 ^ 256"
    using unsigned_less [of v, where 'a = nat] by (simp add: less_imp_diff_less div_le_dividend le_less_trans)
  ultimately have "unat (TakeFraction v) = unat (drop_bit 7 v)"
    unfolding unat_drop_bit_eq drop_bit_nat_def TakeFraction_def from_pData_def
    by (simp add: unat_of_nat)
  then show ?thesis by (simp add: word_unat_eq_iff)
qed

lemma be_val_append: "be_val (xs @ ys) = be_val xs * 256 ^ length ys + be_val ys"
  unfolding be_val_def foldl_append foldl_be [of "foldl (\<lambda>a b. a * 256 + unat b) 0 xs" ys]
  by (simp add: be_val_def)

lemma be_val_all_zero: "\<forall>b\<in>set bs. b = 0 \<Longrightarrow> be_val bs = 0"
  by (induction bs rule: rev_induct) (simp_all add: be_val_def)

lemma be_val_zeros: "be_val (replicate n 0) = 0"
  by (rule be_val_all_zero) simp

lemma memcmp_lt_be_val:
  "length xs = length ys \<Longrightarrow> memcmp xs ys < 0 \<Longrightarrow> be_val xs < be_val ys"
proof (induction xs ys rule: list_induct2)
  case Nil
  then show ?case by simp
next
  case (Cons x xs y ys)
  show ?case
  proof (cases "x < y")
    case True
    then have "unat x + 1 \<le> unat y" by (simp add: word_less_nat_alt)
    then have "(unat x + 1) * 256 ^ length ys \<le> unat y * 256 ^ length ys"
      by (rule mult_le_mono1)
    moreover have "be_val xs < 256 ^ length ys"
      using be_val_bound [of xs] Cons.hyps by simp
    ultimately show ?thesis using Cons.hyps
      by (simp add: be_val_Cons)
  next
    case False
    with Cons.prems have "x = y" "memcmp xs ys < 0"
      by (auto split: if_splits)
    then show ?thesis using Cons.IH Cons.hyps by (simp add: be_val_Cons)
  qed
qed

lemma length_m_pData: "length (m_pData v) = 32"
  by (simp add: m_pData_def length_be_bytes)

lemma length_masked: "length (UnfiromRandom_masked nOffs msk out) = 32"
  by (simp add: UnfiromRandom_masked_def Let_def length_m_pData)

lemma UnfiromRandom_accept_bound:
  assumes "UnfiromRandom_accept threshold nOffs msk out"
  shows "UnfiromRandom_bingo nOffs msk out < threshold"
proof -
  let ?B = "drop nOffs (UnfiromRandom_masked nOffs msk out)"
  let ?T = "drop nOffs (m_pData threshold)"
  have "be_val ?B < be_val ?T"
    using assms unfolding UnfiromRandom_accept_def
    by (intro memcmp_lt_be_val) (simp_all add: length_masked length_m_pData)
  also have "be_val ?T \<le> be_val (take nOffs (m_pData threshold) @ ?T)"
    unfolding be_val_append by simp
  also have "\<dots> = unat threshold" by (simp add: be_val_m_pData)
  finally have lt: "be_val ?B < unat threshold" .
  have "be_val (replicate nOffs 0 @ ?B) = be_val ?B"
    by (simp add: be_val_append be_val_zeros)
  moreover have "be_val ?B < 2 ^ 256"
    using lt unsigned_less [of threshold, where 'a = nat] by simp
  ultimately have "unat (UnfiromRandom_bingo nOffs msk out) = be_val ?B"
    by (simp add: UnfiromRandom_bingo_def from_pData_def unat_of_nat)
  with lt show ?thesis by (simp add: word_less_nat_alt)
qed

lemma FindOrderOf_bits_ge: "n \<le> FindOrderOf_bits x n"
proof (induction x n rule: FindOrderOf_bits.induct)
  case (1 x nOrder)
  show ?case
  proof (cases "drop_bit 1 x \<noteq> 0")
    case True
    with 1 [OF refl True] show ?thesis
      by (subst FindOrderOf_bits.simps) (simp add: Let_def del: FindOrderOf_bits.simps)
  next
    case False
    then show ?thesis by (subst FindOrderOf_bits.simps) (simp add: Let_def del: FindOrderOf_bits.simps)
  qed
qed

lemma FindOrderOf_loop_pos: "\<exists>b\<in>set bs. b \<noteq> 0 \<Longrightarrow> 0 < FindOrderOf_loop bs"
proof (induction bs)
  case Nil
  then show ?case by simp
next
  case (Cons x xs)
  show ?case
  proof (cases "x = 0")
    case True
    with Cons show ?thesis by simp
  next
    case False
    have "1 \<le> push_bit 3 (length (x # xs)) - 7" by (simp add: push_bit_eq_mult)
    also have "\<dots> \<le> FindOrderOf_bits x (push_bit 3 (length (x # xs)) - 7)"
      by (rule FindOrderOf_bits_ge)
    finally show ?thesis using False by (simp del: FindOrderOf_bits.simps)
  qed
qed

lemma FindOrderOf_pos: "v \<noteq> 0 \<Longrightarrow> 0 < FindOrderOf v"
proof -
  assume "v \<noteq> 0"
  then have "be_val (m_pData v) \<noteq> 0" by (simp add: be_val_m_pData unat_eq_0)
  then have "\<not> (\<forall>b\<in>set (m_pData v). b = 0)"
    using be_val_all_zero [of "m_pData v"] by (rule contrapos_nn)
  then have "\<exists>b\<in>set (m_pData v). b \<noteq> 0" by simp
  then show ?thesis unfolding FindOrderOf_def by (rule FindOrderOf_loop_pos)
qed

lemma UnfiromRandom_loop_unfold:
  "UnfiromRandom_loop get thr nOffs msk orc =
     (if UnfiromRandom_accept thr nOffs msk (fst (get orc))
      then Some (UnfiromRandom_bingo nOffs msk (fst (get orc)), snd (get orc))
      else UnfiromRandom_loop get thr nOffs msk (snd (get orc)))"
  by (subst UnfiromRandom_loop.simps) (simp add: case_prod_beta)

lemma Oracle_out_Suc: "Oracle_out get orc (Suc j) = Oracle_out get (snd (get orc)) j"
  by (simp add: Oracle_out_def)

lemma UnfiromRandom_loop_first_accept:
  assumes "UnfiromRandom_accept thr nOffs msk (Oracle_out get orc k)"
    and "\<forall>j<k. \<not> UnfiromRandom_accept thr nOffs msk (Oracle_out get orc j)"
  shows "UnfiromRandom_loop get thr nOffs msk orc
       = Some (UnfiromRandom_bingo nOffs msk (Oracle_out get orc k), Oracle_run get orc (Suc k))"
  using assms
proof (induction k arbitrary: orc)
  case 0
  then show ?case
    by (subst UnfiromRandom_loop_unfold) (simp add: Oracle_out_def)
next
  case (Suc k)
  from Suc.prems(2) have "\<not> UnfiromRandom_accept thr nOffs msk (Oracle_out get orc 0)"
    by blast
  then have n0: "\<not> UnfiromRandom_accept thr nOffs msk (fst (get orc))"
    by (simp add: Oracle_out_def)
  have "UnfiromRandom_loop get thr nOffs msk (snd (get orc))
      = Some (UnfiromRandom_bingo nOffs msk (Oracle_out get (snd (get orc)) k),
              Oracle_run get (snd (get orc)) (Suc k))"
  proof (rule Suc.IH)
    show "UnfiromRandom_accept thr nOffs msk (Oracle_out get (snd (get orc)) k)"
      using Suc.prems(1) by (simp add: Oracle_out_Suc)
    show "\<forall>j<k. \<not> UnfiromRandom_accept thr nOffs msk (Oracle_out get (snd (get orc)) j)"
    proof (intro allI impI)
      fix j assume "j < k"
      then have "Suc j < Suc k" by simp
      with Suc.prems(2) have "\<not> UnfiromRandom_accept thr nOffs msk (Oracle_out get orc (Suc j))"
        by blast
      then show "\<not> UnfiromRandom_accept thr nOffs msk (Oracle_out get (snd (get orc)) j)"
        by (simp add: Oracle_out_Suc)
    qed
  qed
  then show ?case using n0
    by (subst UnfiromRandom_loop_unfold) (simp add: Oracle_out_Suc)
qed




lemma UnfiromRandom_loop_Some_accept:
  assumes "UnfiromRandom_loop get thr nOffs msk orc = Some y"
  shows "\<exists>k. UnfiromRandom_accept thr nOffs msk (Oracle_out get orc k)"
proof (rule UnfiromRandom_loop.raw_induct
    [where P = "\<lambda>get thr nOffs msk orc y.
        \<exists>k. UnfiromRandom_accept thr nOffs msk (Oracle_out get orc k)", OF _ assms])
  fix f :: "('a \<Rightarrow> Raw \<times> 'a) \<Rightarrow> Raw \<Rightarrow> nat \<Rightarrow> byte \<Rightarrow> 'a \<Rightarrow> (Raw \<times> 'a) option"
    and get thr nOffs msk orc y
  assume ih: "\<And>get thr nOffs msk orc y. f get thr nOffs msk orc = Some y
      \<Longrightarrow> \<exists>k. UnfiromRandom_accept thr nOffs msk (Oracle_out get orc k)"
  assume body: "(case get orc of
      (out, orc') \<Rightarrow>
        if UnfiromRandom_accept thr nOffs msk out
        then Some (UnfiromRandom_bingo nOffs msk out, orc')
        else f get thr nOffs msk orc') = Some y"
  show "\<exists>k. UnfiromRandom_accept thr nOffs msk (Oracle_out get orc k)"
  proof (cases "UnfiromRandom_accept thr nOffs msk (fst (get orc))")
    case True
    then have "UnfiromRandom_accept thr nOffs msk (Oracle_out get orc 0)"
      by (simp add: Oracle_out_def)
    then show ?thesis ..
  next
    case False
    with body have "f get thr nOffs msk (snd (get orc)) = Some y"
      by (simp add: case_prod_beta)
    from ih [OF this] obtain k
      where "UnfiromRandom_accept thr nOffs msk (Oracle_out get (snd (get orc)) k)" ..
    then have "UnfiromRandom_accept thr nOffs msk (Oracle_out get orc (Suc k))"
      by (simp add: Oracle_out_Suc)
    then show ?thesis ..
  qed
qed

lemma UnfiromRandom_loop_never:
  "\<forall>k. \<not> UnfiromRandom_accept thr nOffs msk (Oracle_out get orc k)
   \<Longrightarrow> UnfiromRandom_loop get thr nOffs msk orc = None"
  using UnfiromRandom_loop_Some_accept [of get thr nOffs msk orc]
  by (cases "UnfiromRandom_loop get thr nOffs msk orc") auto

lemma sample_range_nz: "sample_range s \<noteq> 0"
  by (simp add: sample_range_def Let_def)

lemma SamplePoint_unfold:
  "SamplePoint get s =
     (case UnfiromRandom_loop get (sample_range s) (UnfiromRandom_nOffs (sample_range s))
             (UnfiromRandom_msk (sample_range s)) (m_Oracle s) of
        None \<Rightarrow> None
      | Some (rnd, orc') \<Rightarrow>
          (let out = m_Begin s - sample_range s + rnd in
           if out < m_LowerBound s \<or> out \<ge> m_Begin s
           then Some (Inr (False, out, s\<lparr>m_Oracle := orc'\<rparr>))
           else Some (Inr (True, out,
                  s\<lparr>m_Oracle := orc',
                    m_Begin := (if sample_range s \<ge> m_Begin s then 0
                                else m_Begin s - sample_range s)\<rparr>))))"
proof -
  have r: "(if TakeFraction (- m_Begin s + m_End s) = 0 then 1
            else TakeFraction (- m_Begin s + m_End s)) = sample_range s"
    by (simp add: sample_range_def TakeFraction_eq Let_def)
  have nz: "FindOrderOf (sample_range s) \<noteq> 0"
    using FindOrderOf_pos [OF sample_range_nz [of s]] by simp
  show ?thesis
    unfolding SamplePoint_def Let_def r UnfiromRandom_def
    using nz
    by (auto simp: algebra_simps split: option.splits)
qed


lemma SamplePoint_result:
  "(\<forall>k. Sampler_accepts get s k \<and> (\<forall>j<k. \<not> Sampler_accepts get s j) \<longrightarrow>
      Sampler_random get s k < sample_range s \<and>
      SamplePoint get s =
        (let out = m_Begin s - sample_range s + Sampler_random get s k;
             s' = s\<lparr>m_Oracle := Oracle_run get (m_Oracle s) (Suc k)\<rparr>
         in if out < m_LowerBound s \<or> out \<ge> m_Begin s then Some (Inr (False, out, s'))
            else Some (Inr (True, out,
                   s'\<lparr>m_Begin := (if sample_range s \<ge> m_Begin s then 0
                                  else m_Begin s - sample_range s)\<rparr>))))
   \<and> ((\<forall>k. \<not> Sampler_accepts get s k) \<longrightarrow> SamplePoint get s = None)"
proof (intro conjI allI impI)
  fix k
  assume a: "Sampler_accepts get s k \<and> (\<forall>j<k. \<not> Sampler_accepts get s j)"
  then show "Sampler_random get s k < sample_range s"
    unfolding Sampler_accepts_def Sampler_random_def by (intro UnfiromRandom_accept_bound) simp
  from a have "UnfiromRandom_loop get (sample_range s) (UnfiromRandom_nOffs (sample_range s))
             (UnfiromRandom_msk (sample_range s)) (m_Oracle s)
     = Some (Sampler_random get s k, Oracle_run get (m_Oracle s) (Suc k))"
    unfolding Sampler_accepts_def Sampler_random_def by (intro UnfiromRandom_loop_first_accept) simp_all
  then show "SamplePoint get s =
        (let out = m_Begin s - sample_range s + Sampler_random get s k;
             s' = s\<lparr>m_Oracle := Oracle_run get (m_Oracle s) (Suc k)\<rparr>
         in if out < m_LowerBound s \<or> out \<ge> m_Begin s then Some (Inr (False, out, s'))
            else Some (Inr (True, out,
                   s'\<lparr>m_Begin := (if sample_range s \<ge> m_Begin s then 0
                                  else m_Begin s - sample_range s)\<rparr>)))"
    by (simp add: SamplePoint_unfold Let_def)
next
  assume "\<forall>k. \<not> Sampler_accepts get s k"
  then have "UnfiromRandom_loop get (sample_range s) (UnfiromRandom_nOffs (sample_range s))
             (UnfiromRandom_msk (sample_range s)) (m_Oracle s) = None"
    unfolding Sampler_accepts_def by (rule UnfiromRandom_loop_never)
  then show "SamplePoint get s = None" by (simp add: SamplePoint_unfold)
qed

lemma s0_range: "sample_range s0 = 2"
  by (simp add: sample_range_def s0_def Let_def drop_bit_eq_div)

lemma FindOrderOf_2: "FindOrderOf 2 = 2"
  by code_simp

lemma s0_accepts: "Sampler_accepts get0 s0 0"
  by code_simp

lemma s0_random: "Sampler_random get0 s0 0 = 1"
  by code_simp

lemma get1_out: "Oracle_out get1 orc k = 3"
  by (simp add: Oracle_out_def get1_def)

lemma s0_rejects_3:
  "\<not> UnfiromRandom_accept 2 (UnfiromRandom_nOffs 2) (UnfiromRandom_msk 2) 3"
  by code_simp

lemma s0_never_accepts: "\<not> Sampler_accepts get1 s0 k"
  unfolding Sampler_accepts_def s0_range get1_out
  by (rule s0_rejects_3)

text \<open>
  What \<open>FindOrderOf\<close> returns is the bit length of its argument; the masked bytes that
  \<open>UnfiromRandom\<close> compares with the threshold are the draw truncated to that many bits;
  and over all 256-bit values each truncated value occurs equally often.
\<close>

lemma FindOrderOf_bits_spec:
  "x \<noteq> 0 \<Longrightarrow> \<exists>p. FindOrderOf_bits x n = n + p \<and> 2 ^ p \<le> unat x \<and> unat x < 2 ^ Suc p"
proof (induction x n rule: FindOrderOf_bits.induct)
  case (1 x nOrder)
  have h: "unat (drop_bit 1 x) = unat x div 2"
    by (metis unat_drop_bit_eq drop_bit_eq_div power_one_right)
  show ?case
  proof (cases "drop_bit 1 x \<noteq> 0")
    case True
    from "1.IH" [OF refl True True] obtain p where
      p: "FindOrderOf_bits (drop_bit 1 x) (nOrder + 1) = nOrder + 1 + p"
        "2 ^ p \<le> unat (drop_bit 1 x)" "unat (drop_bit 1 x) < 2 ^ Suc p"
      by auto
    have "FindOrderOf_bits x nOrder = nOrder + Suc p"
      using True p(1)
      by (subst FindOrderOf_bits.simps) (simp add: Let_def del: FindOrderOf_bits.simps)
    moreover have "2 ^ Suc p \<le> unat x" "unat x < 2 ^ Suc (Suc p)"
      using p(2,3) unfolding h by simp_all
    ultimately show ?thesis by blast
  next
    case False
    then have "unat x div 2 = 0" using h by (simp add: unat_eq_0)
    moreover have "unat x \<noteq> 0" using "1.prems" by (simp add: unat_eq_0)
    ultimately have "unat x = 1" by linarith
    moreover have "FindOrderOf_bits x nOrder = nOrder"
      using False
      by (subst FindOrderOf_bits.simps) (simp add: Let_def del: FindOrderOf_bits.simps)
    ultimately show ?thesis by (intro exI [of _ 0]) simp
  qed
qed

lemma FindOrderOf_loop_spec:
  "be_val bs \<noteq> 0 \<Longrightarrow>
     0 < FindOrderOf_loop bs \<and> 2 ^ (FindOrderOf_loop bs - 1) \<le> be_val bs
     \<and> be_val bs < 2 ^ FindOrderOf_loop bs"
proof (induction bs)
  case Nil
  then show ?case by (simp add: be_val_def)
next
  case (Cons x xs)
  define L where "L = length xs"
  define K :: nat where "K = 256 ^ L"
  have K: "(2::nat) ^ (8 * L) = K" by (simp add: K_def power_mult)
  have bv: "be_val (x # xs) = unat x * K + be_val xs"
    by (simp add: be_val_Cons K_def L_def)
  have r: "be_val xs < K" using be_val_bound [of xs] by (simp add: K_def L_def)
  show ?case
  proof (cases "x = 0")
    case True
    have "be_val (x # xs) = be_val xs" unfolding bv using True by simp
    with Cons True show ?thesis by simp
  next
    case False
    from FindOrderOf_bits_spec [OF False, of "push_bit 3 (length (x # xs)) - 7"]
    obtain p where p: "FindOrderOf_bits x (push_bit 3 (length (x # xs)) - 7)
        = push_bit 3 (length (x # xs)) - 7 + p" "2 ^ p \<le> unat x" "unat x < 2 ^ Suc p"
      by blast
    have n: "FindOrderOf_loop (x # xs) = 8 * L + p + 1"
      using False p(1) by (simp add: push_bit_eq_mult L_def del: FindOrderOf_bits.simps)
    have "(2::nat) ^ (8 * L + p) = 2 ^ p * K" by (simp add: power_add K)
    also have "\<dots> \<le> unat x * K" using p(2) by (rule mult_le_mono1)
    also have "\<dots> \<le> be_val (x # xs)" by (simp add: bv)
    finally have lo: "2 ^ (8 * L + p) \<le> be_val (x # xs)" .
    have "unat x + 1 \<le> 2 ^ Suc p" using p(3) by simp
    then have "(unat x + 1) * K \<le> 2 ^ Suc p * K" by (rule mult_le_mono1)
    moreover have "be_val (x # xs) < (unat x + 1) * K" using r by (simp add: bv)
    moreover have "(2::nat) ^ (8 * L + p + 1) = 2 ^ Suc p * K" by (simp add: power_add K)
    ultimately have hi: "be_val (x # xs) < 2 ^ (8 * L + p + 1)" by simp
    show ?thesis using lo hi by (simp add: n del: FindOrderOf_loop.simps)
  qed
qed

lemma FindOrderOf_spec:
  assumes "v \<noteq> 0"
  shows "0 < FindOrderOf v" "FindOrderOf v \<le> 256"
    "2 ^ (FindOrderOf v - 1) \<le> unat v" "unat v < 2 ^ FindOrderOf v"
proof -
  have "be_val (m_pData v) \<noteq> 0" using assms by (simp add: be_val_m_pData unat_eq_0)
  from FindOrderOf_loop_spec [OF this]
  show a: "0 < FindOrderOf v" and b: "2 ^ (FindOrderOf v - 1) \<le> unat v"
    and "unat v < 2 ^ FindOrderOf v"
    by (simp_all add: FindOrderOf_def be_val_m_pData)
  have "unat v < 2 ^ 256" using unsigned_less [of v, where 'a = nat] by simp
  with b have "(2::nat) ^ (FindOrderOf v - 1) < 2 ^ 256" by (rule le_less_trans)
  then have "FindOrderOf v - 1 < 256" by (simp only: power_strict_increasing_iff rel_simps)
  then show "FindOrderOf v \<le> 256" by simp
qed

lemma memcmp_be_val:
  "length xs = length ys \<Longrightarrow>
     (memcmp xs ys < 0 \<longleftrightarrow> be_val xs < be_val ys)
     \<and> (memcmp xs ys = 0 \<longleftrightarrow> be_val xs = be_val ys)"
proof (induction xs ys rule: list_induct2)
  case Nil
  then show ?case by simp
next
  case (Cons x xs y ys)
  define K :: nat where "K = 256 ^ length ys"
  have bx: "be_val (x # xs) = unat x * K + be_val xs" "be_val xs < K"
    using be_val_bound [of xs] Cons.hyps by (simp_all add: be_val_Cons K_def)
  have by': "be_val (y # ys) = unat y * K + be_val ys" "be_val ys < K"
    using be_val_bound [of ys] by (simp_all add: be_val_Cons K_def)
  consider (lt) "x < y" | (gt) "y < x" | (eq) "x = y" by fastforce
  then show ?case
  proof cases
    case lt
    then have "unat x + 1 \<le> unat y" by (simp add: word_less_nat_alt)
    then have "(unat x + 1) * K \<le> unat y * K" by (rule mult_le_mono1)
    then have "be_val (x # xs) < be_val (y # ys)" using bx by' by simp
    then show ?thesis using lt by simp
  next
    case gt
    then have "unat y + 1 \<le> unat x" by (simp add: word_less_nat_alt)
    then have "(unat y + 1) * K \<le> unat x * K" by (rule mult_le_mono1)
    then have "be_val (y # ys) < be_val (x # xs)" using bx by' by simp
    moreover have "\<not> x < y" using gt by simp
    ultimately show ?thesis using gt by simp
  next
    case eq
    have "memcmp (x # xs) (y # ys) = memcmp xs ys" using eq by simp
    then show ?thesis unfolding bx(1) by'(1) using eq Cons.IH by simp
  qed
qed


lemma be_val_drop:
  "i \<le> length bs \<Longrightarrow> be_val (drop i bs) = be_val bs mod 256 ^ (length bs - i)"
proof -
  assume "i \<le> length bs"
  have "be_val bs = be_val (take i bs) * 256 ^ length (drop i bs) + be_val (drop i bs)"
    using be_val_append [of "take i bs" "drop i bs"] by simp
  moreover have "be_val (drop i bs) < 256 ^ length (drop i bs)" by (rule be_val_bound)
  ultimately show ?thesis by simp
qed

lemma mod_mult_split_nat:
  "R < (K::nat) \<Longrightarrow> (b mod Q) * K + R = (b * K + R) mod (Q * K)"
proof -
  assume r: "R < K"
  have "(b * K + R) mod (K * Q) = K * ((b * K + R) div K mod Q) + (b * K + R) mod K"
    by (rule mod_mult2_eq)
  moreover have "(b * K + R) div K = b" "(b * K + R) mod K = R" using r by simp_all
  ultimately show ?thesis by (simp add: mult.commute)
qed

lemma and_7_nat: "(7::nat) AND m = m mod 8"
proof -
  have "(7::nat) = mask 3" by (simp add: mask_eq_exp_minus_1)
  then have "(7::nat) AND m = take_bit 3 m" by (simp add: take_bit_eq_mask and.commute)
  then show ?thesis by (simp add: take_bit_eq_mod)
qed

lemma unat_take_bit_mod: "unat (take_bit n (w::'a::len word)) = unat w mod 2 ^ n"
  unfolding unsigned_take_bit_eq by (rule take_bit_eq_mod)

lemma unat_and_msk:
  "unat ((b::byte) AND (push_bit j 2 - 1)) = unat b mod 2 ^ Suc j"
proof -
  have "(push_bit j 2 - 1 :: byte) = mask (Suc j)"
    by (simp add: mask_eq_exp_minus_1 push_bit_eq_mult)
  then have "b AND (push_bit j 2 - 1) = take_bit (Suc j) b"
    by (simp add: take_bit_eq_mask)
  then show ?thesis by (simp only: unat_take_bit_mod)
qed

lemma drop_masked:
  assumes "nOffs < 32"
  shows "drop nOffs (UnfiromRandom_masked nOffs msk out)
       = (m_pData out ! nOffs AND msk) # drop (Suc nOffs) (m_pData out)"
proof -
  have l: "nOffs < length (m_pData out)" using assms by (simp add: length_m_pData)
  then have "drop nOffs ((m_pData out)[nOffs := m_pData out ! nOffs AND msk])
      = ((m_pData out)[nOffs := m_pData out ! nOffs AND msk]) ! nOffs
        # drop (Suc nOffs) ((m_pData out)[nOffs := m_pData out ! nOffs AND msk])"
    by (intro Cons_nth_drop_Suc [symmetric]) simp
  then show ?thesis using l by (simp add: UnfiromRandom_masked_def Let_def)
qed

lemma masked_value:
  assumes n: "0 < n" "n \<le> 256"
  shows "be_val (drop (31 - (n - 1) div 8)
           (UnfiromRandom_masked (31 - (n - 1) div 8) (push_bit ((n - 1) mod 8) 2 - 1) out))
       = unat out mod 2 ^ n"
proof -
  define m1 where "m1 = (n - 1) div 8"
  define q where "q = Suc ((n - 1) mod 8)"
  define nOffs where "nOffs = 31 - m1"
  define K :: nat where "K = 256 ^ m1"
  define bs where "bs = m_pData out"
  have m1: "m1 \<le> 31" using n by (simp add: m1_def)
  have no: "nOffs < 32" "32 - nOffs = Suc m1" "31 - nOffs = m1"
    using m1 by (simp_all add: nOffs_def)
  have lb: "length bs = 32" by (simp add: bs_def length_m_pData)
  have nq: "n = q + 8 * m1" using n(1) by (simp add: q_def m1_def)
  have K2: "(2::nat) ^ (8 * m1) = K" by (simp add: K_def power_mult)
  have pn: "(2::nat) ^ n = 2 ^ q * K" by (simp add: nq power_add K2)
  have q8: "q \<le> 8" by (simp add: q_def)
  have R: "be_val (drop (Suc nOffs) bs) < K"
    using be_val_bound [of "drop (Suc nOffs) bs"] by (simp add: lb no K_def)
  have X: "unat (bs ! nOffs) * K + be_val (drop (Suc nOffs) bs) = unat out mod (256 * K)"
  proof -
    have "drop nOffs bs = bs ! nOffs # drop (Suc nOffs) bs"
      using no(1) lb by (intro Cons_nth_drop_Suc [symmetric]) simp
    then have "be_val (drop nOffs bs)
        = unat (bs ! nOffs) * K + be_val (drop (Suc nOffs) bs)"
      by (simp add: be_val_Cons lb no K_def)
    moreover have "be_val bs = unat out" by (simp add: bs_def be_val_m_pData)
    moreover have "be_val (drop nOffs bs) = be_val bs mod (256 * K)"
      using be_val_drop [of nOffs bs] no(1) by (simp add: lb no K_def)
    ultimately show ?thesis by simp
  qed
  have d: "(2::nat) ^ q * K dvd 256 * K"
  proof -
    have "(2::nat) ^ q dvd 2 ^ 8" using q8 by (rule le_imp_power_dvd)
    then have "(2::nat) ^ q dvd 256" by simp
    then show ?thesis by (rule mult_dvd_mono) simp
  qed
  have "be_val (drop nOffs (UnfiromRandom_masked nOffs (push_bit ((n - 1) mod 8) 2 - 1) out))
      = unat (bs ! nOffs) mod 2 ^ q * K + be_val (drop (Suc nOffs) bs)"
    unfolding drop_masked [OF no(1)]
    by (simp add: be_val_Cons length_m_pData no K_def bs_def unat_and_msk q_def)
  also have "\<dots> = (unat (bs ! nOffs) * K + be_val (drop (Suc nOffs) bs)) mod (2 ^ q * K)"
    by (rule mod_mult_split_nat [OF R])
  also have "\<dots> = unat out mod (256 * K) mod (2 ^ q * K)" by (simp only: X)
  also have "\<dots> = unat out mod (2 ^ q * K)" by (rule mod_mod_cancel [OF d])
  finally show ?thesis by (simp only: nOffs_def m1_def pn)
qed

lemma UnfiromRandom_params:
  assumes "thr \<noteq> 0"
  shows "UnfiromRandom_nOffs thr = 31 - (FindOrderOf thr - 1) div 8"
    and "UnfiromRandom_msk thr = push_bit ((FindOrderOf thr - 1) mod 8) 2 - 1"
  by (simp_all add: UnfiromRandom_nOffs_def UnfiromRandom_msk_def and_7_nat drop_bit_eq_div)

lemma UnfiromRandom_bingo_eq:
  assumes "thr \<noteq> 0"
  shows "UnfiromRandom_bingo (UnfiromRandom_nOffs thr) (UnfiromRandom_msk thr) out
       = take_bit (FindOrderOf thr) out"
proof -
  note f = FindOrderOf_spec [OF assms]
  let ?n = "FindOrderOf thr"
  have v: "be_val (drop (UnfiromRandom_nOffs thr)
           (UnfiromRandom_masked (UnfiromRandom_nOffs thr) (UnfiromRandom_msk thr) out))
       = unat out mod 2 ^ ?n"
    unfolding UnfiromRandom_params [OF assms] by (rule masked_value [OF f(1,2)])
  have "unat out mod 2 ^ ?n < 2 ^ 256"
    using unsigned_less [of out, where 'a = nat]
    by (intro le_less_trans [OF mod_less_eq_dividend]) simp
  then have "unat (UnfiromRandom_bingo (UnfiromRandom_nOffs thr) (UnfiromRandom_msk thr) out)
      = unat out mod 2 ^ ?n"
    by (simp add: UnfiromRandom_bingo_def from_pData_def be_val_append be_val_zeros v unat_of_nat)
  then show ?thesis
    by (simp only: word_unat_eq_iff unat_take_bit_mod)
qed

lemma UnfiromRandom_accept_iff:
  assumes "thr \<noteq> 0"
  shows "UnfiromRandom_accept thr (UnfiromRandom_nOffs thr) (UnfiromRandom_msk thr) out
       \<longleftrightarrow> take_bit (FindOrderOf thr) out < thr"
proof -
  note f = FindOrderOf_spec [OF assms]
  let ?n = "FindOrderOf thr"
  let ?o = "UnfiromRandom_nOffs thr"
  have v: "be_val (drop ?o (UnfiromRandom_masked ?o (UnfiromRandom_msk thr) out))
       = unat out mod 2 ^ ?n"
    unfolding UnfiromRandom_params [OF assms] by (rule masked_value [OF f(1,2)])
  have o: "?o \<le> 32" by (simp add: UnfiromRandom_params [OF assms])
  have "(2::nat) ^ ?n dvd 256 ^ (32 - ?o)"
  proof -
    have "?n \<le> 8 * (32 - ?o)" using f(1,2) by (simp add: UnfiromRandom_params [OF assms])
    then have "(2::nat) ^ ?n dvd 2 ^ (8 * (32 - ?o))" by (rule le_imp_power_dvd)
    then show ?thesis by (simp add: power_mult)
  qed
  then have "(2::nat) ^ ?n \<le> 256 ^ (32 - ?o)" by (rule dvd_imp_le) simp
  with f(4) have "unat thr < 256 ^ (32 - ?o)" by simp
  then have t: "be_val (drop ?o (m_pData thr)) = unat thr"
    using be_val_drop [of ?o "m_pData thr"] o by (simp add: length_m_pData be_val_m_pData)
  have "UnfiromRandom_accept thr ?o (UnfiromRandom_msk thr) out
      \<longleftrightarrow> unat out mod 2 ^ ?n < unat thr"
    unfolding UnfiromRandom_accept_def
    using memcmp_be_val [of "drop ?o (UnfiromRandom_masked ?o (UnfiromRandom_msk thr) out)"
        "drop ?o (m_pData thr)"]
    by (simp add: length_masked length_m_pData v t)
  then show ?thesis
    by (simp only: word_less_nat_alt unat_take_bit_mod)
qed

lemma card_mod_nat:
  assumes "a < (K::nat)"
  shows "card {x. x < K * M \<and> x mod K = a} = M"
proof -
  have K: "0 < K" using assms by simp
  have "{x. x < K * M \<and> x mod K = a} = (\<lambda>h. a + K * h) ` {..<M}"
  proof (intro set_eqI iffI)
    fix x assume "x \<in> {x. x < K * M \<and> x mod K = a}"
    then have x: "x < K * M" "x mod K = a" by simp_all
    have "x div K < M" using x(1) by (simp add: less_mult_imp_div_less mult.commute)
    moreover have "x = a + K * (x div K)" using x(2) mult_div_mod_eq [of K x] by simp
    ultimately show "x \<in> (\<lambda>h. a + K * h) ` {..<M}" by blast
  next
    fix x assume "x \<in> (\<lambda>h. a + K * h) ` {..<M}"
    then obtain h where h: "h < M" "x = a + K * h" by auto
    have "Suc h \<le> M" using h(1) by simp
    then have "K * Suc h \<le> K * M" by (rule mult_le_mono2)
    moreover have "a + K * h < K * Suc h" using assms by simp
    ultimately have "x < K * M" using h(2) by simp
    moreover have "x mod K = a" using assms h(2) by simp
    ultimately show "x \<in> {x. x < K * M \<and> x mod K = a}" by simp
  qed
  moreover have "inj_on (\<lambda>h. a + K * h) {..<M}" using K by (simp add: inj_on_def)
  ultimately show ?thesis by (simp add: card_image)
qed

lemma card_take_bit_word:
  fixes v :: "'a::len word"
  assumes "n \<le> LENGTH('a)" "unat v < 2 ^ n"
  shows "card {w :: 'a word. take_bit n w = v} = 2 ^ (LENGTH('a) - n)"
proof -
  let ?S = "{w :: 'a word. take_bit n w = v}"
  let ?T = "{x::nat. x < 2 ^ n * 2 ^ (LENGTH('a) - n) \<and> x mod 2 ^ n = unat v}"
  have p: "(2::nat) ^ n * 2 ^ (LENGTH('a) - n) = 2 ^ LENGTH('a)"
    using assms(1) by (simp flip: power_add)
  have "unat ` ?S = ?T"
  proof (intro set_eqI iffI)
    fix x assume "x \<in> unat ` ?S"
    then obtain w where w: "x = unat w" "take_bit n w = v" by auto
    have "x < 2 ^ LENGTH('a)" unfolding w(1) by (rule unsigned_less)
    moreover have "x mod 2 ^ n = unat v"
      unfolding w(1) w(2) [symmetric] by (rule unat_take_bit_mod [symmetric])
    ultimately show "x \<in> ?T" by (simp add: p)
  next
    fix x assume "x \<in> ?T"
    then have x: "x < 2 ^ LENGTH('a)" "x mod 2 ^ n = unat v" by (simp_all add: p)
    have u: "unat (of_nat x :: 'a word) = x" using x(1) by (simp add: unat_of_nat)
    have "take_bit n (of_nat x :: 'a word) = v"
      by (simp only: word_unat_eq_iff unat_take_bit_mod u x(2))
    then have "of_nat x \<in> ?S" by simp
    then show "x \<in> unat ` ?S" using u by (metis image_eqI)
  qed
  moreover have "inj_on unat ?S" by (simp add: inj_on_def word_unat_eq_iff)
  ultimately have "card ?S = card ?T" using card_image [of unat ?S] by simp
  also have "\<dots> = 2 ^ (LENGTH('a) - n)" using assms(2) by (rule card_mod_nat)
  finally show ?thesis .
qed

lemma Sampler_bits_spec:
  "0 < Sampler_bits s" "Sampler_bits s \<le> 256"
  "2 ^ (Sampler_bits s - 1) \<le> unat (sample_range s)"
  "unat (sample_range s) < 2 ^ Sampler_bits s"
  unfolding Sampler_bits_def by (rule FindOrderOf_spec [OF sample_range_nz])+

lemma Sampler_accepts_iff:
  "Sampler_accepts get s k
     \<longleftrightarrow> take_bit (Sampler_bits s) (Oracle_out get (m_Oracle s) k) < sample_range s"
  unfolding Sampler_accepts_def Sampler_bits_def
  by (rule UnfiromRandom_accept_iff [OF sample_range_nz])

lemma Sampler_random_eq:
  "Sampler_random get s k = take_bit (Sampler_bits s) (Oracle_out get (m_Oracle s) k)"
  unfolding Sampler_random_def Sampler_bits_def
  by (rule UnfiromRandom_bingo_eq [OF sample_range_nz])

lemma Sampler_draws_card:
  assumes "v < sample_range s"
  shows "card (Sampler_draws s v) = 2 ^ (256 - Sampler_bits s)"
proof -
  have "Sampler_draws s v = {w. take_bit (Sampler_bits s) w = v}"
    unfolding Sampler_draws_def Sampler_bits_def
      UnfiromRandom_accept_iff [OF sample_range_nz] UnfiromRandom_bingo_eq [OF sample_range_nz]
    using assms by auto
  moreover have "unat v < 2 ^ Sampler_bits s"
    using assms Sampler_bits_spec(4) [of s] by (simp add: word_less_nat_alt)
  ultimately show ?thesis
    using card_take_bit_word [of "Sampler_bits s" v] Sampler_bits_spec(2) [of s] by simp
qed

lemma s0_bits: "Sampler_bits s0 = 2"
  unfolding Sampler_bits_def s0_range by (rule FindOrderOf_2)

text \<open>
  C4, as the code has it.  For every sampler state, with
  \<open>range = (m_End - m_Begin) >> 7\<close> (1 if that is zero) and \<open>bits\<close> the bit length of
  \<open>range\<close> (\<open>2 ^ (bits - 1) \<le> range < 2 ^ bits\<close>): \<open>SamplePoint\<close> draws a uniform random
  value below \<open>range\<close> from the oracle by rejection.  Draw \<open>k\<close> of the oracle is accepted
  exactly when its lowest \<open>bits\<close> bits are a number below \<open>range\<close>, and that number is
  the random value made of it; every value below \<open>range\<close> is made of the same number
  \<open>2 ^ (256 - bits)\<close> of the \<open>2 ^ 256\<close> values the oracle can deliver, so that a
  uniform oracle gives a uniform random value.  With \<open>random\<close> the value of the first
  accepted draw, the output is \<open>out = m_Begin - range + random\<close> (modulo \<open>2 ^ 256\<close>);
  the function returns false, leaving \<open>m_Begin\<close> as it is, exactly when
  \<open>out < m_LowerBound\<close> or \<open>out \<ge> m_Begin\<close>, and otherwise returns true and sets
  \<open>m_Begin\<close> to 0 when \<open>range \<ge> m_Begin\<close> and to \<open>m_Begin - range\<close> when not.  If no
  draw is ever accepted, it does not return.
\<close>

theorem SamplePoint_samples_below_begin:
  "(2 ^ (Sampler_bits s - 1) \<le> unat (sample_range s)
      \<and> unat (sample_range s) < 2 ^ Sampler_bits s)
   \<and> (\<forall>k. Sampler_accepts get s k
          \<longleftrightarrow> take_bit (Sampler_bits s) (Oracle_out get (m_Oracle s) k) < sample_range s)
   \<and> (\<forall>k. Sampler_random get s k
          = take_bit (Sampler_bits s) (Oracle_out get (m_Oracle s) k))
   \<and> (\<forall>v. v < sample_range s \<longrightarrow> card (Sampler_draws s v) = 2 ^ (256 - Sampler_bits s))
   \<and> (\<forall>k. Sampler_accepts get s k \<and> (\<forall>j<k. \<not> Sampler_accepts get s j) \<longrightarrow>
      Sampler_random get s k < sample_range s \<and>
      SamplePoint get s =
        (let out = m_Begin s - sample_range s + Sampler_random get s k;
             s' = s\<lparr>m_Oracle := Oracle_run get (m_Oracle s) (Suc k)\<rparr>
         in if out < m_LowerBound s \<or> out \<ge> m_Begin s then Some (Inr (False, out, s'))
            else Some (Inr (True, out,
                   s'\<lparr>m_Begin := (if sample_range s \<ge> m_Begin s then 0
                                  else m_Begin s - sample_range s)\<rparr>))))
   \<and> ((\<forall>k. \<not> Sampler_accepts get s k) \<longrightarrow> SamplePoint get s = None)"
proof (intro conjI allI)
  show "2 ^ (Sampler_bits s - 1) \<le> unat (sample_range s)" by (rule Sampler_bits_spec)
  show "unat (sample_range s) < 2 ^ Sampler_bits s" by (rule Sampler_bits_spec)
  show "Sampler_accepts get s k
     \<longleftrightarrow> take_bit (Sampler_bits s) (Oracle_out get (m_Oracle s) k) < sample_range s" for k
    by (rule Sampler_accepts_iff)
  show "Sampler_random get s k = take_bit (Sampler_bits s) (Oracle_out get (m_Oracle s) k)" for k
    by (rule Sampler_random_eq)
  show "v < sample_range s \<longrightarrow> card (Sampler_draws s v) = 2 ^ (256 - Sampler_bits s)" for v
    using Sampler_draws_card [of v s] by blast
  show "Sampler_accepts get s k \<and> (\<forall>j<k. \<not> Sampler_accepts get s j) \<longrightarrow>
      Sampler_random get s k < sample_range s \<and>
      SamplePoint get s =
        (let out = m_Begin s - sample_range s + Sampler_random get s k;
             s' = s\<lparr>m_Oracle := Oracle_run get (m_Oracle s) (Suc k)\<rparr>
         in if out < m_LowerBound s \<or> out \<ge> m_Begin s then Some (Inr (False, out, s'))
            else Some (Inr (True, out,
                   s'\<lparr>m_Begin := (if sample_range s \<ge> m_Begin s then 0
                                  else m_Begin s - sample_range s)\<rparr>)))" for k
    using SamplePoint_result [of get s] by blast
  show "(\<forall>k. \<not> Sampler_accepts get s k) \<longrightarrow> SamplePoint get s = None"
    using SamplePoint_result [of get s] by blast
qed

text \<open>
  With \<open>m_Begin = 256\<close> and \<open>m_End = 512\<close> the range is 2 and has 2 bits.  The oracle
  \<open>get0\<close> from state 5 delivers 5, whose lowest 2 bits are 1, which is accepted: the
  output is 255 and \<open>m_Begin\<close> becomes 254.  The value 1 is made of \<open>2 ^ 254\<close> oracle
  values.  The oracle \<open>get1\<close> is never accepted.
\<close>

theorem SamplePoint_samples_below_begin_witness:
  "Sampler_bits s0 = 2
   \<and> Sampler_accepts get0 s0 0
   \<and> Sampler_random get0 s0 0 = take_bit 2 5
   \<and> card (Sampler_draws s0 1) = 2 ^ 254
   \<and> SamplePoint get0 s0
       = Some (Inr (True, 255, \<lparr>m_Oracle = 6, m_Begin = 254, m_End = 512, m_LowerBound = 0\<rparr>))
   \<and> (\<forall>k. \<not> Sampler_accepts get1 s0 k)
   \<and> SamplePoint get1 s0 = None"
proof -
  note t0 = SamplePoint_samples_below_begin [of s0 get0]
  note t1 = SamplePoint_samples_below_begin [of s0 get1]
  have a: "Sampler_accepts get0 s0 0 \<and> (\<forall>j<0. \<not> Sampler_accepts get0 s0 j)"
    using s0_accepts by simp
  from t0 a
  have "SamplePoint get0 s0 =
        (let out = m_Begin s0 - sample_range s0 + Sampler_random get0 s0 0;
             s' = s0\<lparr>m_Oracle := Oracle_run get0 (m_Oracle s0) (Suc 0)\<rparr>
         in if out < m_LowerBound s0 \<or> out \<ge> m_Begin s0 then Some (Inr (False, out, s'))
            else Some (Inr (True, out,
                   s'\<lparr>m_Begin := (if sample_range s0 \<ge> m_Begin s0 then 0
                                  else m_Begin s0 - sample_range s0)\<rparr>)))"
    by blast
  then have r0: "SamplePoint get0 s0
       = Some (Inr (True, 255, \<lparr>m_Oracle = 6, m_Begin = 254, m_End = 512, m_LowerBound = 0\<rparr>))"
    unfolding s0_range s0_random by (simp add: s0_def get0_def)
  have o: "Oracle_out get0 (m_Oracle s0) 0 = 5"
    by (simp add: Oracle_out_def get0_def s0_def)
  from t0 have "Sampler_random get0 s0 0
      = take_bit (Sampler_bits s0) (Oracle_out get0 (m_Oracle s0) 0)"
    by blast
  then have rnd: "Sampler_random get0 s0 0 = take_bit 2 5"
    by (simp only: s0_bits o)
  have "(1::Raw) < sample_range s0" by (simp add: s0_range)
  with t0 have "card (Sampler_draws s0 1) = 2 ^ (256 - Sampler_bits s0)"
    by blast
  then have c: "card (Sampler_draws s0 1) = 2 ^ 254"
    by (simp only: s0_bits) simp
  have n: "\<forall>k. \<not> Sampler_accepts get1 s0 k"
    using s0_never_accepts by blast
  with t1 have "SamplePoint get1 s0 = None"
    by blast
  with a r0 n rnd c s0_bits show ?thesis by blast
qed

text \<open>
  The output of the claim as stated, \<open>m_Begin + range - random\<close>, is not what is
  computed: in the state above the range is 2 and the random value is 1, so it would be
  257, and \<open>SamplePoint\<close> puts out 255.
\<close>

theorem SamplePoint_claimed_output_counterexample:
  "sample_range s0 = 2 \<and> Sampler_random get0 s0 0 = 1
   \<and> SamplePoint get0 s0
       = Some (Inr (True, 255, \<lparr>m_Oracle = 6, m_Begin = 254, m_End = 512, m_LowerBound = 0\<rparr>))
   \<and> m_Begin s0 + sample_range s0 - Sampler_random get0 s0 0 \<noteq> 255"
proof -
  have a: "Sampler_accepts get0 s0 0 \<and> (\<forall>j<0. \<not> Sampler_accepts get0 s0 j)"
    using s0_accepts by simp
  from SamplePoint_result [of get0 s0] a
  have "SamplePoint get0 s0 =
        (let out = m_Begin s0 - sample_range s0 + Sampler_random get0 s0 0;
             s' = s0\<lparr>m_Oracle := Oracle_run get0 (m_Oracle s0) (Suc 0)\<rparr>
         in if out < m_LowerBound s0 \<or> out \<ge> m_Begin s0 then Some (Inr (False, out, s'))
            else Some (Inr (True, out,
                   s'\<lparr>m_Begin := (if sample_range s0 \<ge> m_Begin s0 then 0
                                  else m_Begin s0 - sample_range s0)\<rparr>)))"
    by blast
  then have r0: "SamplePoint get0 s0
       = Some (Inr (True, 255, \<lparr>m_Oracle = 6, m_Begin = 254, m_End = 512, m_LowerBound = 0\<rparr>))"
    unfolding s0_range s0_random by (simp add: s0_def get0_def)
  have "m_Begin s0 + sample_range s0 - Sampler_random get0 s0 0 \<noteq> 255"
    unfolding s0_range s0_random by (simp add: s0_def)
  with r0 s0_range s0_random show ?thesis by blast
qed

subsection \<open>Accepted chain-work proofs\<close>

lemma height_step:
  fixes h h0 :: Height
  assumes "h + 1 = h0" "HeightGenesis \<le> h0"
  shows "h < h0"
proof -
  have "h0 \<noteq> 0" using assms(2) by (auto simp: HeightGenesis_def)
  then have "1 + h \<noteq> 0" using assms(1) by (simp add: add.commute)
  then have "unat (1 + h) = Suc (unat h)" by (rule unatSuc)
  then show ?thesis using assms(1) by (simp add: word_less_nat_alt add.commute)
qed

lemma state_above_trans: "state_above a b \<Longrightarrow> state_above b c \<Longrightarrow> state_above a c"
  by (auto simp: state_above_def)

lemma sorted_wrt_above_Cons:
  assumes "state_above a b" "sorted_wrt state_above (b # xs)"
  shows "sorted_wrt state_above (a # b # xs)"
  using assms by (auto intro: state_above_trans)

lemma IsValid_loop_decreasing:
  assumes "IsValid_loop env dc rk samp ver dLoPrev sP rest iState = Some (Inr (True, n, v))"
    and "dLoPrev < m_ChainWork sP" and "HeightGenesis \<le> m_Height_st sP"
    and "list_all (\<lambda>s. HeightGenesis \<le> m_Height_st s) rest"
  shows "iState \<le> n \<and> sorted_wrt state_above (sP # take (n - iState) rest)"
  using assms
proof (induction rest arbitrary: samp ver dLoPrev sP iState)
  case Nil
  then show ?case
    by (auto split: option.splits sum.splits bool.splits)
next
  case (Cons s rest)
  have gs: "HeightGenesis \<le> m_Height_st s"
    and grest: "list_all (\<lambda>s. HeightGenesis \<le> m_Height_st s) rest"
    using Cons.prems(4) by simp_all
  show ?case
  proof (cases "SamplePoint (Oracle_get env) samp")
    case None
    with Cons.prems(1) show ?thesis by simp
  next
    case (Some r)
    show ?thesis
    proof (cases r)
      case (Inl f)
      with Some Cons.prems(1) show ?thesis by simp
    next
      case (Inr t)
      obtain b dSamp samp' where t: "t = (b, dSamp, samp')" by (cases t)
      show ?thesis
      proof (cases b)
        case False
        with Some Inr t Cons.prems(1) show ?thesis by simp
      next
        case True
        define dLo where "dLo = Dec dc (m_Difficulty (m_PoW s)) (m_ChainWork s)"
        define samp2
          where "samp2 = (if m_Begin samp' > dLo then samp'\<lparr>m_Begin := dLo\<rparr> else samp')"
        from Cons.prems(1) Some Inr t True
        have c1: "\<not> dSamp \<ge> m_ChainWork s" and c2: "\<not> dSamp < dLo"
          by (auto simp: dLo_def Let_def split: if_splits)
        then have inv: "dLo < m_ChainWork s" by simp
        have "\<exists>ver'. state_above sP s \<and>
            IsValid_loop env dc rk samp2 ver' dLo s rest (iState + 1) = Some (Inr (True, n, v))"
        proof (cases "m_Height_st s + 1 = m_Height_st sP")
          case adj: True
          from Cons.prems(1) Some Inr t True c1 c2 adj
          have cw: "m_ChainWork s = dLoPrev"
            and rec: "IsValid_loop env dc rk samp2 ver dLo s rest (iState + 1)
                        = Some (Inr (True, n, v))"
            by (auto simp: dLo_def samp2_def Let_def split: if_splits)
          have h: "m_Height_st s < m_Height_st sP"
            using adj Cons.prems(3) by (rule height_step)
          have "state_above sP s"
            using h cw Cons.prems(2) by (simp add: state_above_def)
          with rec show ?thesis by blast
        next
          case nadj: False
          define ver' where
            "ver' = Verifier_Process env rk ver (get_Hash env s) (m_Height_st s - HeightGenesis)"
          from Cons.prems(1) Some Inr t True c1 c2 nadj
          have h: "\<not> m_Height_st s \<ge> m_Height_st sP"
            and cw: "\<not> m_ChainWork s \<ge> dLoPrev"
            and rec: "IsValid_loop env dc rk samp2 ver' dLo s rest (iState + 1)
                        = Some (Inr (True, n, v))"
            by (auto simp: dLo_def samp2_def ver'_def Let_def split: if_splits)
          from cw Cons.prems(2) have "m_ChainWork s < m_ChainWork sP"
            by (meson linorder_not_le order_less_trans)
          with h have "state_above sP s"
            by (simp add: state_above_def linorder_not_le)
          with rec show ?thesis by blast
        qed
        then obtain ver' where above: "state_above sP s"
          and rec: "IsValid_loop env dc rk samp2 ver' dLo s rest (iState + 1)
                      = Some (Inr (True, n, v))"
          by blast
        from Cons.IH [OF rec inv gs grest]
        have ih: "iState + 1 \<le> n" "sorted_wrt state_above (s # take (n - (iState + 1)) rest)"
          by simp_all
        from ih(1) have "n - iState = Suc (n - (iState + 1))" by simp
        then have tk: "take (n - iState) (s # rest) = s # take (n - (iState + 1)) rest"
          by (simp only: take_Suc_Cons)
        show ?thesis
          unfolding tk using ih(1) sorted_wrt_above_Cons [OF above ih(2)] by simp
      qed
    qed
  qed
qed


lemma Dec_root_below:
  "\<not> m_Begin (Sampler_init env dc s) \<ge> m_End (Sampler_init env dc s)
   \<Longrightarrow> Dec dc (m_Difficulty (m_PoW s)) (m_ChainWork s) < m_ChainWork s"
  by (simp add: Sampler_init_def)

lemma IsValid_decreasing:
  assumes "IsValid env rules dc cwp = Some (Inr True)"
  shows "m_vStates cwp \<noteq> [] \<and> sorted_wrt state_above (m_vStates cwp)"
proof (cases "m_vStates cwp")
  case Nil
  with assms show ?thesis by (simp add: IsValid_def IsValidInternal_def)
next
  case (Cons sRoot rest)
  from assms obtain iState iHash
    where int: "IsValidInternal env rules dc cwp = Some (Inr (True, iState, iHash))"
      and len: "length (m_vStates cwp) = iState"
    by (auto simp: IsValid_def split: option.splits sum.splits)
  let ?samp = "(Sampler_init env dc sRoot)\<lparr>m_LowerBound := m_LowerBound_cwp cwp\<rparr>"
  let ?dLo = "Dec dc (m_Difficulty (m_PoW sRoot)) (m_ChainWork sRoot)"
  let ?ver = "Verifier_init env (m_Proof cwp) (m_Height_st sRoot - HeightGenesis)"
  from int Cons
  have sane: "list_all (\<lambda>s. IsSane s \<and> IsValidPoW env rules s) (sRoot # rest)"
    and be: "\<not> m_Begin (Sampler_init env dc sRoot) \<ge> m_End (Sampler_init env dc sRoot)"
    by (auto simp: IsValidInternal_def Let_def split: if_splits)
  from int Cons sane be obtain v
    where loop: "IsValid_loop env dc (IsRootValid env cwp sRoot) ?samp ?ver ?dLo sRoot rest 1
                   = Some (Inr (True, iState, v))"
    by (auto simp: IsValidInternal_def Let_def split: if_splits option.splits sum.splits bool.splits)
  have g: "IsSane s \<Longrightarrow> HeightGenesis \<le> m_Height_st s" for s :: "'a Full"
    by (auto simp: IsSane_def split: if_splits)
  have g0: "HeightGenesis \<le> m_Height_st sRoot" using sane g by simp
  have grest: "list_all (\<lambda>s. HeightGenesis \<le> m_Height_st s) rest"
    using sane g by (auto simp: list_all_iff)
  from IsValid_loop_decreasing [OF loop Dec_root_below [OF be] g0 grest]
  have "sorted_wrt state_above (sRoot # take (iState - 1) rest)" by simp
  moreover have "iState - 1 = length rest" using len Cons by simp
  ultimately show ?thesis using Cons by simp
qed

lemma s1_range: "sample_range s1 = 4"
  by (simp add: sample_range_def s1_def Let_def drop_bit_eq_div)

lemma s1_out: "Oracle_out get0 (m_Oracle s1) 0 = 6" "Oracle_out get0 (m_Oracle s1) 1 = 7"
  "Oracle_out get0 (m_Oracle s1) 2 = 8" "Oracle_run get0 (m_Oracle s1) (Suc 2) = 9"
  by (simp_all add: Oracle_out_def s1_def get0_def eval_nat_numeral)

lemma s1_tests:
  "\<not> UnfiromRandom_accept 4 (UnfiromRandom_nOffs 4) (UnfiromRandom_msk 4) 6"
  "\<not> UnfiromRandom_accept 4 (UnfiromRandom_nOffs 4) (UnfiromRandom_msk 4) 7"
  "UnfiromRandom_accept 4 (UnfiromRandom_nOffs 4) (UnfiromRandom_msk 4) 8"
  "UnfiromRandom_bingo (UnfiromRandom_nOffs 4) (UnfiromRandom_msk 4) 8 = 0"
  by code_simp+

lemma raw0: "Unpack_Raw consts8 0 = 256"
  by code_simp


lemma s0_point:
  "SamplePoint get0 s0
     = Some (Inr (True, 255, \<lparr>m_Oracle = 6, m_Begin = 254, m_End = 512, m_LowerBound = 0\<rparr>))"
proof -
  have a: "Sampler_accepts get0 s0 0 \<and> (\<forall>j<0. \<not> Sampler_accepts get0 s0 j)"
    using s0_accepts by simp
  from SamplePoint_result [of get0 s0] a
  have "SamplePoint get0 s0 =
        (let out = m_Begin s0 - sample_range s0 + Sampler_random get0 s0 0;
             s' = s0\<lparr>m_Oracle := Oracle_run get0 (m_Oracle s0) (Suc 0)\<rparr>
         in if out < m_LowerBound s0 \<or> out \<ge> m_Begin s0 then Some (Inr (False, out, s'))
            else Some (Inr (True, out,
                   s'\<lparr>m_Begin := (if sample_range s0 \<ge> m_Begin s0 then 0
                                  else m_Begin s0 - sample_range s0)\<rparr>)))"
    by blast
  then show ?thesis
    unfolding s0_range s0_random by (simp add: s0_def get0_def)
qed

lemma s1_point:
  "SamplePoint get0 s1
     = Some (Inr (False, - 4, \<lparr>m_Oracle = 9, m_Begin = 0, m_End = 512, m_LowerBound = 0\<rparr>))"
proof -
  have acc: "Sampler_accepts get0 s1 2"
    and rej: "\<not> Sampler_accepts get0 s1 0" "\<not> Sampler_accepts get0 s1 1"
    and rnd: "Sampler_random get0 s1 2 = 0"
    unfolding Sampler_accepts_def Sampler_random_def s1_range s1_out
    by (rule s1_tests)+
  have "\<forall>j<2. \<not> Sampler_accepts get0 s1 j"
    using rej by (auto simp: less_Suc_eq numeral_2_eq_2)
  with acc SamplePoint_result [of get0 s1]
  have "SamplePoint get0 s1 =
        (let out = m_Begin s1 - sample_range s1 + Sampler_random get0 s1 2;
             s' = s1\<lparr>m_Oracle := Oracle_run get0 (m_Oracle s1) (Suc 2)\<rparr>
         in if out < m_LowerBound s1 \<or> out \<ge> m_Begin s1 then Some (Inr (False, out, s'))
            else Some (Inr (True, out,
                   s'\<lparr>m_Begin := (if sample_range s1 \<ge> m_Begin s1 then 0
                                  else m_Begin s1 - sample_range s1)\<rparr>)))"
    by blast
  then show ?thesis
    unfolding s1_range rnd s1_out by (simp add: s1_def)
qed

lemma cwp0_valid: "IsValid env0 rules0 consts8 cwp0 = Some (Inr True)"
proof -
  have i: "Sampler_init env0 consts8 st_tip = s0"
    by (simp add: Sampler_init_def env0_def st_tip_def s0_def Dec_def raw0 get_Hash_def
        get_HashInternal_def Let_def)
  have sane: "IsSane st_tip" "IsSane st_gen"
    by (simp_all add: IsSane_def st_tip_def st_gen_def HeightGenesis_def)
  have pow: "IsValidPoW env0 rules0 s" for s
    by (simp add: IsValidPoW_def rules0_def)
  have dtip: "Dec consts8 (m_Difficulty (m_PoW st_tip)) (m_ChainWork st_tip) = 256"
    by (simp add: Dec_def raw0 st_tip_def Let_def)
  have dgen: "Dec consts8 (m_Difficulty (m_PoW st_gen)) (m_ChainWork st_gen) = 0"
    by (simp add: Dec_def raw0 st_gen_def Let_def)
  have decs: "Dec consts8 0 256 = 0" "Dec consts8 0 512 = 256"
    by (simp_all add: Dec_def raw0 Let_def)
  have lb: "s0\<lparr>m_LowerBound := m_LowerBound_cwp cwp0\<rparr> = s0"
    by (simp add: s0_def cwp0_def)
  have og: "Oracle_get env0 = get0" by (simp add: env0_def)
  have nx: "\<lparr>m_Oracle = 6, m_Begin = 254, m_End = 512, m_LowerBound = 0\<rparr>
        \<lparr>m_Begin := 0\<rparr> = s1" by (simp add: s1_def)
  have fin: "IsValid_loop env0 consts8 rk s1 v 0 st_gen [] 2 = Some (Inr (True, 2, v))" for rk v
    by (simp add: og s1_point)
  have loop: "IsValid_loop env0 consts8 rk s0 0 256 st_tip [st_gen] 1
      = Some (Inr (True, 2, 0))" for rk
    by (simp add: og s0_point decs Let_def s1_point [unfolded s1_def] st_gen_def st_tip_def
        get_Hash_def get_HashInternal_def env0_def)
  have cw: "m_vStates cwp0 = [st_tip, st_gen]" "m_Proof cwp0 = []"
    by (simp_all add: cwp0_def)
  have ev: "Verifier_get_Pos env0 v = v" "Verifier_init env0 d h = 0" for v d h
    by (simp_all add: env0_def)
  have be: "\<not> m_End s0 \<le> m_Begin s0" by (simp add: s0_def)
  have int: "IsValidInternal env0 rules0 consts8 cwp0 = Some (Inr (True, 2, 0))"
    by (simp add: IsValidInternal_def cw sane pow i lb dtip Let_def loop ev be
        del: IsValid_loop.simps One_nat_def)
  show ?thesis
    by (simp add: IsValid_def int cw)
qed

text \<open>
  C3.  In every chain-work proof that \<open>IsValid\<close> accepts, the state list is not empty
  (its first state is the tip: the sampler is seeded with its hash and starts from its
  chain work, and the MMR root is checked against its definition), and the states are in
  strictly decreasing order of both height and chain work along the list.
\<close>

theorem IsValid_states_strictly_decreasing:
  assumes "IsValid env rules dc cwp = Some (Inr True)"
  shows "m_vStates cwp \<noteq> [] \<and> sorted_wrt state_above (m_vStates cwp)"
  using assms by (rule IsValid_decreasing)

theorem IsValid_states_strictly_decreasing_witness:
  "IsValid env0 rules0 consts8 cwp0 = Some (Inr True)
   \<and> m_vStates cwp0 \<noteq> [] \<and> sorted_wrt state_above (m_vStates cwp0)"
  using IsValid_states_strictly_decreasing [OF cwp0_valid] cwp0_valid by simp

subsection \<open>Sharded validation\<close>

text \<open>
  Big amounts add like numbers modulo \<open>2 ^ 128\<close>; the accumulators of a kernel are the
  ones handed in plus what the kernel contributes; the loops of \<open>ValidateAndSummarize\<close>
  are the loops by positions, for the positions \<open>cmask\<close> gives; and merging commutes
  with every step of such a loop, so that two verifiers on disjoint sets of positions merge
  to the verifier of the union.
\<close>

lemma amount_of_lt: "amount_of a < 2 ^ 128"
proof -
  have "unat (Lo a) < 2 ^ 64" "unat (Hi a) < 2 ^ 64"
    using unat_lt_64 [of "Lo a"] unat_lt_64 [of "Hi a"] by simp_all
  then show ?thesis by (simp add: amount_of_def)
qed

lemma amount_of_inj: "amount_of a = amount_of (b :: AmountBig) \<Longrightarrow> a = b"
proof -
  assume e: "amount_of a = amount_of b"
  have la: "unat (Lo a) < 2 ^ 64" and lb: "unat (Lo b) < 2 ^ 64"
    using unat_lt_64 [of "Lo a"] unat_lt_64 [of "Lo b"] by simp_all
  have "amount_of a mod 2 ^ 64 = unat (Lo a)" "amount_of b mod 2 ^ 64 = unat (Lo b)"
    using la lb by (simp_all add: amount_of_def)
  with e have lo: "unat (Lo a) = unat (Lo b)" by simp
  with e have "unat (Hi a) = unat (Hi b)" by (simp add: amount_of_def)
  with lo have "Lo a = Lo b" "Hi a = Hi b" by (simp_all add: word_unat_eq_iff)
  then show ?thesis by simp
qed

lemma amount_of_add_Amount:
  "amount_of (AmountBig_add_Amount a x) = (amount_of a + unat x) mod 2 ^ 128"
proof -
  have la: "unat (Lo a) < 2 ^ 64" and ha: "unat (Hi a) < 2 ^ 64" and lx: "unat x < 2 ^ 64"
    using unat_lt_64 [of "Lo a"] unat_lt_64 [of "Hi a"] unat_lt_64 [of x] by simp_all
  show ?thesis
  proof (cases "unat (Lo a) + unat x < 2 ^ 64")
    case True
    then have "unat (Lo a + x) = unat (Lo a) + unat x" by (simp add: unat_plus_if')
    moreover from this have "\<not> Lo a + x < x" by (simp add: word_less_nat_alt)
    moreover have "unat (Lo a) + unat x + 2 ^ 64 * unat (Hi a) < 2 ^ 128"
      using True ha by simp
    ultimately show ?thesis
      by (simp add: AmountBig_add_Amount_def Let_def amount_of_def)
  next
    case False
    then have lo: "unat (Lo a + x) = unat (Lo a) + unat x - 2 ^ 64"
      by (simp add: unat_plus_if')
    then have c: "Lo a + x < x" using la False by (simp add: word_less_nat_alt)
    show ?thesis
    proof (cases "unat (Hi a) + 1 < 2 ^ 64")
      case True
      then have "unat (Hi a + 1) = unat (Hi a) + 1" by (simp add: unat_plus_if')
      moreover have "unat (Lo a) + unat x - 2 ^ 64 + 2 ^ 64 * (unat (Hi a) + 1) < 2 ^ 128"
        using True la lx by simp
      ultimately show ?thesis using lo c False
        by (simp add: AmountBig_add_Amount_def Let_def amount_of_def)
    next
      case h: False
      then have hi: "unat (Hi a) = 2 ^ 64 - 1" using ha by simp
      then have "unat (Hi a + 1) = 0"
        by (simp add: unat_word_ariths)
      then have "Hi a + 1 = 0" by (simp add: unat_eq_0)
      then show ?thesis using lo c False hi la lx
        by (simp add: AmountBig_add_Amount_def Let_def amount_of_def mod_if)
    qed
  qed
qed

lemma split_mod_nat: "l < (B::nat) \<Longrightarrow> (l + B * h) mod (B * B) = l + B * (h mod B)"
  by (simp add: mod_mult2_eq)

lemma amount_of_add:
  "amount_of (AmountBig_add a b) = (amount_of a + amount_of b) mod 2 ^ 128"
proof -
  define a' where "a' = AmountBig_add_Amount a (Lo b)"
  have la: "unat (Lo a') < 2 ^ 64"
    using unat_lt_64 [of "Lo a'"] by simp
  have p: "(2::nat) ^ 128 = 2 ^ 64 * 2 ^ 64" by simp
  have "amount_of (AmountBig_add a b) = unat (Lo a') + 2 ^ 64 * unat (Hi a' + Hi b)"
    by (simp add: AmountBig_add_def Let_def a'_def amount_of_def)
  also have "\<dots> = unat (Lo a') + 2 ^ 64 * ((unat (Hi a') + unat (Hi b)) mod 2 ^ 64)"
    by (simp add: unat_word_ariths)
  also have "\<dots> = (unat (Lo a') + 2 ^ 64 * (unat (Hi a') + unat (Hi b))) mod 2 ^ 128"
    unfolding p using split_mod_nat [OF la, of "unat (Hi a') + unat (Hi b)"] by simp
  also have "\<dots> = (amount_of a' + 2 ^ 64 * unat (Hi b)) mod 2 ^ 128"
    by (simp add: amount_of_def algebra_simps)
  also have "\<dots> = ((amount_of a + unat (Lo b)) mod 2 ^ 128 + 2 ^ 64 * unat (Hi b)) mod 2 ^ 128"
    by (simp add: a'_def amount_of_add_Amount)
  also have "\<dots> = (amount_of a + unat (Lo b) + 2 ^ 64 * unat (Hi b)) mod 2 ^ 128"
    by (rule mod_add_left_eq)
  also have "\<dots> = (amount_of a + amount_of b) mod 2 ^ 128"
    by (simp add: amount_of_def [of b] add.assoc)
  finally show ?thesis .
qed

lemma amount_of_zero: "amount_of AmountBig_zero = 0"
  by (simp add: amount_of_def AmountBig_zero_def)

lemma amount_of_mod: "amount_of a mod 2 ^ 128 = amount_of a"
  using amount_of_lt [of a] by simp

lemma AmountBig_add_zero: "AmountBig_add a AmountBig_zero = a"
  by (rule amount_of_inj) (simp only: amount_of_add amount_of_zero add_0_right amount_of_mod)

lemma AmountBig_zero_add: "AmountBig_add AmountBig_zero a = a"
  by (rule amount_of_inj) (simp only: amount_of_add amount_of_zero add_0_left amount_of_mod)

lemma AmountBig_add_commute: "AmountBig_add a b = AmountBig_add b a"
  by (rule amount_of_inj) (simp only: amount_of_add add.commute)

lemma AmountBig_add_assoc:
  "AmountBig_add (AmountBig_add a b) c = AmountBig_add a (AmountBig_add b c)"
  by (rule amount_of_inj)
    (simp only: amount_of_add mod_add_left_eq mod_add_right_eq add.assoc)

lemma AmountBig_add_Amount_assoc:
  "AmountBig_add a (AmountBig_add_Amount b x) = AmountBig_add_Amount (AmountBig_add a b) x"
  by (rule amount_of_inj)
    (simp only: amount_of_add amount_of_add_Amount mod_add_left_eq mod_add_right_eq add.assoc)

lemma AmountBig_add_Amount_as_add:
  "AmountBig_add_Amount a x = AmountBig_add a \<lparr>Lo = x, Hi = 0\<rparr>"
  by (simp add: AmountBig_add_def Let_def)

lemma acc_lift_nested_comp:
  "acc_lift_nested fee exc (acc_lift_nested f e r) = acc_lift_nested (AmountBig_add fee f) (exc + e) r"
  by (simp add: acc_lift_nested_def AmountBig_add_assoc add.assoc split: option.splits)

lemma acc_lift_simps:
  "acc_lift fee exc None = None"
  "acc_lift fee exc (Some (h, Some f, Some e)) = Some (h, Some (AmountBig_add fee f), Some (exc + e))"
  "acc_lift fee exc (Some (h, None, pe)) = None"
  "acc_lift fee exc (Some (h, pf, None)) = None"
  by (simp_all add: acc_lift_def split: option.splits)

lemma acc_lift_nested_simps:
  "acc_lift_nested fee exc None = None"
  "acc_lift_nested fee exc (Some (hp, h, Some f, Some e))
     = Some (hp, h, Some (AmountBig_add fee f), Some (exc + e))"
  by (simp_all add: acc_lift_nested_def)

lemma Traverse_nested_acc:
  assumes "\<And>v hv fee exc par li. v \<in> set vs \<Longrightarrow>
             Traverse ecc v hv (Some fee) (Some exc) par li
               = acc_lift fee exc (Traverse ecc v hv (Some AmountBig_zero) (Some 0) par li)"
  shows "Traverse_nested ecc this p0 vs hp hv (Some fee) (Some exc)
       = acc_lift_nested fee exc
           (Traverse_nested ecc this p0 vs hp hv (Some AmountBig_zero) (Some 0))"
  using assms
proof (induction vs arbitrary: p0 hp hv fee exc)
  case Nil
  show ?case by (simp add: acc_lift_nested_simps AmountBig_add_zero)
next
  case (Cons v vs)
  define r where "r = Traverse ecc v hv (Some AmountBig_zero) (Some 0) (Some this) None"
  have tv: "Traverse ecc v hv (Some f) (Some e) (Some this) None = acc_lift f e r" for f e
    unfolding r_def by (rule Cons.prems) simp
  have ih: "Traverse_nested ecc this p vs hp' hv' (Some f) (Some e)
          = acc_lift_nested f e
              (Traverse_nested ecc this p vs hp' hv' (Some AmountBig_zero) (Some 0))"
    for p hp' hv' f e
    by (rule Cons.IH) (rule Cons.prems, simp)
  have "r = acc_lift AmountBig_zero 0 r"
    using tv [of AmountBig_zero 0] unfolding r_def [symmetric] .
  then have rz: "acc_lift AmountBig_zero 0 r = r" by (rule sym)
  consider (none) "r = None" | (good) h f e where "r = Some (h, Some f, Some e)"
  proof (cases r)
    case None
    then show ?thesis using that by simp
  next
    case (Some t)
    obtain h pf pe where t: "t = (h, pf, pe)" by (cases t)
    show ?thesis
    proof (cases pf)
      case None
      with rz Some t show ?thesis by (simp add: acc_lift_simps)
    next
      case f: (Some f)
      show ?thesis
      proof (cases pe)
        case None
        with rz Some t show ?thesis by (simp add: acc_lift_simps)
      next
        case (Some e)
        with f t \<open>r = Some t\<close> show ?thesis using that by simp
      qed
    qed
  qed
  then show ?case
  proof cases
    case none
    show ?thesis
      apply (simp only: Traverse_nested.simps Let_def)
      apply (simp only: tv [of fee exc] r_def [symmetric])
      apply (simp add: none acc_lift_simps acc_lift_nested_simps)
      done
  next
    case good
    show ?thesis
      apply (simp only: Traverse_nested.simps Let_def)
      apply (simp only: tv [of fee exc] r_def [symmetric])
      apply (simp only: good acc_lift_simps)
      apply (simp add: ih [of _ _ _ "AmountBig_add fee f" "exc + e"] ih [of _ _ _ f e]
          acc_lift_nested_comp acc_lift_nested_simps)
      done
  qed
qed

lemma Traverse_acc:
  "Traverse ecc k hv (Some fee) (Some exc) par li
     = acc_lift fee exc (Traverse ecc k hv (Some AmountBig_zero) (Some 0) par li)"
proof (induction k arbitrary: hv fee exc par li)
  case (TxKernel ex mu sg kfee h hl ns)
  have n: "Traverse_nested ecc this p0 ns hp hv' (Some f) (Some e)
       = acc_lift_nested f e
           (Traverse_nested ecc this p0 ns hp hv' (Some AmountBig_zero) (Some 0))"
    for this p0 hp hv' f e
    by (rule Traverse_nested_acc) (rule TxKernel.IH)
  show ?case
    apply (simp only: Traverse.simps Let_def)
    apply (simp only: n [of _ _ _ _ fee exc])
    apply (simp add: acc_lift_def acc_lift_nested_def AmountBig_zero_add
        AmountBig_add_Amount_assoc add.assoc
        split: option.splits)
    done
qed

lemma TxKernel_IsValid_acc:
  "TxKernel_IsValid ecc k fee exc
     = map_option (\<lambda>(f, e). (AmountBig_add fee f, exc + e))
         (TxKernel_IsValid ecc k AmountBig_zero 0)"
  unfolding TxKernel_IsValid_def
  apply (simp only: Traverse_acc [of _ _ _ fee exc])
  apply (simp add: acc_lift_def AmountBig_zero_add split: option.splits)
  done

lemma apply_effect_consts:
  assumes "apply_effect e c = Some c'"
  shows "c_nVerifiers c' = c_nVerifiers c" "c_iVerifier c' = c_iVerifier c"
    "c_pAbort c' = c_pAbort c" "c_bBlockMode c' = c_bBlockMode c"
  using assms
  by (auto simp: apply_effect_def HandleElementHeight_def Let_def
      split: option.splits if_splits)

lemma cmask_zero: "0 < N \<Longrightarrow> cmask N i 0 \<longleftrightarrow> i = 0"
  by (auto simp: cmask_def)

lemma cmask_Suc_pos: "0 < i \<Longrightarrow> i < N \<Longrightarrow> cmask N i (Suc j) = cmask N (i - 1) j"
  by (auto simp: cmask_def mod_Suc)

lemma cmask_Suc_zero: "0 < N \<Longrightarrow> cmask N 0 (Suc j) = cmask N (N - 1) j"
  by (auto simp: cmask_def mod_Suc)

lemma ShouldVerify_mask:
  assumes "c_nVerifiers ctx = nV" "iV < nV"
  shows "fst (ShouldVerify ctx iV) = cmask (unat nV) (unat iV) 0"
    and "snd (ShouldVerify ctx iV) = ctr nV iV 1"
    and "snd (ShouldVerify ctx iV) < nV"
    and "(\<lambda>j. cmask (unat nV) (unat iV) (Suc j)) = cmask (unat nV) (unat (snd (ShouldVerify ctx iV)))"
proof -
  have pos: "0 < unat nV" using assms(2) by (simp add: word_less_nat_alt)
  have lt: "unat iV < unat nV" using assms(2) by (simp add: word_less_nat_alt)
  show "fst (ShouldVerify ctx iV) = cmask (unat nV) (unat iV) 0"
    using pos by (simp add: ShouldVerify_def cmask_zero unat_eq_0)
  show "snd (ShouldVerify ctx iV) = ctr nV iV 1"
    using assms by (simp add: ShouldVerify_def)
  have nz: "nV \<noteq> 0" using pos by auto
  have n1: "unat (nV - 1) = unat nV - 1" using nz by (simp add: unat_minus_one)
  show "snd (ShouldVerify ctx iV) < nV"
  proof (cases "iV = 0")
    case True
    then show ?thesis using assms pos n1 by (simp add: ShouldVerify_def word_less_nat_alt)
  next
    case False
    then have "unat (iV - 1) = unat iV - 1" by (simp add: unat_minus_one)
    then show ?thesis using False lt by (simp add: ShouldVerify_def word_less_nat_alt)
  qed
  show "(\<lambda>j. cmask (unat nV) (unat iV) (Suc j)) = cmask (unat nV) (unat (snd (ShouldVerify ctx iV)))"
  proof (cases "iV = 0")
    case True
    then show ?thesis using assms pos n1
      by (auto simp: ShouldVerify_def cmask_Suc_zero fun_eq_iff)
  next
    case False
    then have e: "unat (iV - 1) = unat iV - 1" by (simp add: unat_minus_one)
    have "0 < unat iV" using False by (simp add: unat_gt_0)
    then show ?thesis using False lt e
      by (auto simp: ShouldVerify_def cmask_Suc_pos fun_eq_iff)
  qed
qed

lemma in_step:
  "apply_effect (effect_in ecc pPrev x) ctx =
     (if (case pPrev of None \<Rightarrow> False | Some p \<Rightarrow> cmp_CaM ecc p x > 0) then None
      else
        case Point_Import ecc (m_Commitment x) of
          None \<Rightarrow> None
        | Some pt \<Rightarrow> Some (ctx\<lparr>c_Sigma := c_Sigma ctx + pt\<rparr>))"
  by (simp add: apply_effect_def effect_in_def AmountBig_add_zero split: option.splits)

lemma kin_step:
  "apply_effect (effect_kin ecc pPrev k) ctx =
     (if (case pPrev of None \<Rightarrow> False | Some p \<Rightarrow> TxKernel_cmp ecc p k > 0) then None
      else
        case TxKernel_IsValid ecc k AmountBig_zero (c_Sigma ctx) of
          None \<Rightarrow> None
        | Some (feeInp, exc) \<Rightarrow> Some (ctx\<lparr>c_Sigma := exc\<rparr>))"
  by (simp add: apply_effect_def effect_kin_def AmountBig_add_zero
      TxKernel_IsValid_acc [of ecc k AmountBig_zero "c_Sigma ctx"] split: option.splits)

lemma kout_step:
  "apply_effect (effect_kout ecc pPrev k) ctx =
     (if (case pPrev of None \<Rightarrow> False | Some p \<Rightarrow> TxKernel_cmp ecc p k > 0) then None
      else
        case TxKernel_IsValid ecc k (c_Fee ctx) (c_Sigma ctx) of
          None \<Rightarrow> None
        | Some (fee, exc) \<Rightarrow>
            HandleElementHeight (ctx\<lparr>c_Fee := fee, c_Sigma := exc\<rparr>) (m_Height k))"
proof -
  have u: "ctx\<lparr>c_Sigma := s, c_Fee := f, c_Coinbase := c_Coinbase ctx\<rparr>
         = ctx\<lparr>c_Fee := f, c_Sigma := s\<rparr>" for s f
    by simp
  show ?thesis
    by (simp add: apply_effect_def effect_kout_def AmountBig_add_zero u
        TxKernel_IsValid_acc [of ecc k "c_Fee ctx" "c_Sigma ctx"] split: option.splits)
qed

lemma out_step:
  "c_bBlockMode ctx = bm \<Longrightarrow>
   apply_effect (effect_out ecc rules bm pPrev x) ctx =
     (if (case pPrev of None \<Rightarrow> False | Some p \<Rightarrow> Output_cmp ecc p x > 0) then None
      else
        case Output_IsValid ecc rules x of
          None \<Rightarrow> None
        | Some pt \<Rightarrow>
            if m_Coinbase x then
              if \<not> bm then None
              else
                (case m_pPublic x of
                   None \<Rightarrow> None
                 | Some pub \<Rightarrow>
                     Some (ctx\<lparr>c_Sigma := c_Sigma ctx + pt,
                               c_Coinbase := AmountBig_add_Amount (c_Coinbase ctx) (m_Value pub)\<rparr>))
            else Some (ctx\<lparr>c_Sigma := c_Sigma ctx + pt\<rparr>))"
  by (simp add: apply_effect_def effect_out_def AmountBig_add_zero
      AmountBig_add_Amount_as_add [symmetric] split: option.splits)

lemma ShouldAbort_upd [simp]:
  "ShouldAbort (ctx\<lparr>c_Sigma := s\<rparr>) = ShouldAbort ctx"
  "ShouldAbort (ctx\<lparr>c_Coinbase := cb\<rparr>) = ShouldAbort ctx"
  "ShouldAbort (ctx\<lparr>c_Fee := f\<rparr>) = ShouldAbort ctx"
  "ShouldAbort (ctx\<lparr>c_Height := h\<rparr>) = ShouldAbort ctx"
  by (simp_all add: ShouldAbort_def)

lemma apply_effect_abort:
  "apply_effect e c = Some c' \<Longrightarrow> ShouldAbort c' = ShouldAbort c"
  by (simp add: ShouldAbort_def apply_effect_consts)

lemma VS_inputs_mloop:
  assumes "c_nVerifiers ctx = nV" "iV < nV"
  shows "VS_inputs ecc ctx iV pPrev xs
       = map_option (\<lambda>c. (c, ctr nV iV (length xs)))
           (mloop (ShouldAbort ctx) (\<lambda>x s. Some s) (effect_in ecc)
              (cmask (unat nV) (unat iV)) ctx () pPrev xs)"
  using assms
proof (induction xs arbitrary: ctx iV pPrev)
  case Nil
  show ?case by simp
next
  case (Cons x xs)
  obtain b iV' where sv: "ShouldVerify ctx iV = (b, iV')" by (cases "ShouldVerify ctx iV")
  note m = ShouldVerify_mask [OF Cons.prems, unfolded sv fst_conv snd_conv]
  have c: "ctr nV iV (Suc n) = ctr nV iV' n" for n
    using sv Cons.prems by (auto simp: ShouldVerify_def split: if_splits)
  show ?case
  proof (cases b)
    case True
    have ih: "VS_inputs ecc (ctx\<lparr>c_Sigma := sg\<rparr>) iV' (Some x) xs
       = map_option (\<lambda>c. (c, ctr nV iV' (length xs)))
           (mloop (ShouldAbort ctx) (\<lambda>x s. Some s) (effect_in ecc)
              (cmask (unat nV) (unat iV')) (ctx\<lparr>c_Sigma := sg\<rparr>) () (Some x) xs)" for sg
      using Cons.IH [of "ctx\<lparr>c_Sigma := sg\<rparr>" iV' "Some x"] Cons.prems m(3) by simp
    show ?thesis
      using True m(1)
      by (simp add: sv c in_step m(4) ih del: ctr.simps split: option.splits)
  next
    case False
    show ?thesis
      using False m(1) Cons.IH [of ctx iV' "Some x"] Cons.prems m(3)
      by (simp add: sv c m(4) del: ctr.simps)
  qed
qed

lemma VS_kernels_in_mloop:
  assumes "c_nVerifiers ctx = nV" "iV < nV"
  shows "VS_kernels_in ecc ctx iV pPrev ks kOut
       = map_option (\<lambda>c. (c, ctr nV iV (length ks)))
           (mloop (ShouldAbort ctx) (locate_kernel_out ecc) (effect_kin ecc)
              (cmask (unat nV) (unat iV)) ctx kOut pPrev ks)"
  using assms
proof (induction ks arbitrary: ctx iV pPrev kOut)
  case Nil
  show ?case by simp
next
  case (Cons k ks)
  obtain b iV' where sv: "ShouldVerify ctx iV = (b, iV')" by (cases "ShouldVerify ctx iV")
  note m = ShouldVerify_mask [OF Cons.prems, unfolded sv fst_conv snd_conv]
  have c: "ctr nV iV (Suc n) = ctr nV iV' n" for n
    using sv Cons.prems by (auto simp: ShouldVerify_def split: if_splits)
  have ih: "VS_kernels_in ecc c' iV' (Some k) ks kOut'
       = map_option (\<lambda>c. (c, ctr nV iV' (length ks)))
           (mloop (ShouldAbort ctx) (locate_kernel_out ecc) (effect_kin ecc)
              (cmask (unat nV) (unat iV')) c' kOut' (Some k) ks)"
    if "c_nVerifiers c' = nV" "ShouldAbort c' = ShouldAbort ctx" for c' kOut'
    using Cons.IH [of c' iV' "Some k" kOut'] that m(3) by simp
  show ?case
  proof (cases b)
    case True
    have step: "VS_kernels_in ecc ctx iV pPrev (k # ks) kOut =
        (if ShouldAbort ctx then None
         else case locate_kernel_out ecc k kOut of
                None \<Rightarrow> None
              | Some kOut' \<Rightarrow>
                  (case apply_effect (effect_kin ecc pPrev k) ctx of
                     None \<Rightarrow> None
                   | Some c' \<Rightarrow> VS_kernels_in ecc c' iV' (Some k) ks kOut'))"
      using True by (simp add: sv kin_step split: option.splits)
    show ?thesis
    proof (cases "ShouldAbort ctx")
      case True
      then show ?thesis unfolding step by simp
    next
      case ab: False
      show ?thesis
      proof (cases "apply_effect (effect_kin ecc pPrev k) ctx")
        case None
        then show ?thesis
          unfolding step using True m(1) ab
          by (simp add: c m(4) del: ctr.simps split: option.splits)
      next
        case (Some c')
        have k: "c_nVerifiers c' = nV" "ShouldAbort c' = ShouldAbort ctx"
          using apply_effect_consts [OF Some] apply_effect_abort [OF Some] Cons.prems
          by simp_all
        show ?thesis
          unfolding step using True m(1) ab Some ih [OF k]
          by (simp add: c m(4) del: ctr.simps split: option.splits)
      qed
    qed
  next
    case False
    show ?thesis
      using False m(1) Cons.prems
      by (simp add: sv c m(4) ih del: ctr.simps split: option.splits)
  qed
qed

lemma VS_outputs_mloop:
  assumes "c_nVerifiers ctx = nV" "iV < nV" "c_bBlockMode ctx = bm"
  shows "VS_outputs ecc rules ctx iV pPrev xs
       = map_option (\<lambda>c. (c, ctr nV iV (length xs)))
           (mloop (ShouldAbort ctx) (\<lambda>x s. Some s) (effect_out ecc rules bm)
              (cmask (unat nV) (unat iV)) ctx () pPrev xs)"
  using assms
proof (induction xs arbitrary: ctx iV pPrev)
  case Nil
  show ?case by simp
next
  case (Cons x xs)
  obtain b iV' where sv: "ShouldVerify ctx iV = (b, iV')" by (cases "ShouldVerify ctx iV")
  note m = ShouldVerify_mask [OF Cons.prems(1,2), unfolded sv fst_conv snd_conv]
  have c: "ctr nV iV (Suc n) = ctr nV iV' n" for n
    using sv Cons.prems by (auto simp: ShouldVerify_def split: if_splits)
  have ih: "VS_outputs ecc rules c' iV' (Some x) xs
       = map_option (\<lambda>c. (c, ctr nV iV' (length xs)))
           (mloop (ShouldAbort ctx) (\<lambda>x s. Some s) (effect_out ecc rules bm)
              (cmask (unat nV) (unat iV')) c' () (Some x) xs)"
    if "c_nVerifiers c' = nV" "ShouldAbort c' = ShouldAbort ctx" "c_bBlockMode c' = bm" for c'
    using Cons.IH [of c' iV' "Some x"] that m(3) by simp
  show ?case
  proof (cases b)
    case True
    have step: "VS_outputs ecc rules ctx iV pPrev (x # xs) =
        (if ShouldAbort ctx then None
         else case apply_effect (effect_out ecc rules bm pPrev x) ctx of
                None \<Rightarrow> None
              | Some c' \<Rightarrow> VS_outputs ecc rules c' iV' (Some x) xs)"
      using True Cons.prems(3) by (simp add: sv out_step Let_def split: option.splits)
    show ?thesis
    proof (cases "ShouldAbort ctx")
      case True
      then show ?thesis unfolding step by simp
    next
      case ab: False
      show ?thesis
      proof (cases "apply_effect (effect_out ecc rules bm pPrev x) ctx")
        case None
        then show ?thesis
          unfolding step using True m(1) ab
          by (simp add: c m(4) del: ctr.simps split: option.splits)
      next
        case (Some c')
        have k: "c_nVerifiers c' = nV" "ShouldAbort c' = ShouldAbort ctx" "c_bBlockMode c' = bm"
          using apply_effect_consts [OF Some] apply_effect_abort [OF Some] Cons.prems
          by simp_all
        show ?thesis
          unfolding step using True m(1) ab Some ih [OF k]
          by (simp add: c m(4) del: ctr.simps split: option.splits)
      qed
    qed
  next
    case False
    show ?thesis
      using False m(1) Cons.prems
      by (simp add: sv c m(4) ih del: ctr.simps split: option.splits)
  qed
qed

lemma VS_kernels_out_mloop:
  assumes "c_nVerifiers ctx = nV" "iV < nV"
  shows "VS_kernels_out ecc ctx iV pPrev ks
       = map_option (\<lambda>c. (c, ctr nV iV (length ks)))
           (mloop (ShouldAbort ctx) (\<lambda>x s. Some s) (effect_kout ecc)
              (cmask (unat nV) (unat iV)) ctx () pPrev ks)"
  using assms
proof (induction ks arbitrary: ctx iV pPrev)
  case Nil
  show ?case by simp
next
  case (Cons k ks)
  obtain b iV' where sv: "ShouldVerify ctx iV = (b, iV')" by (cases "ShouldVerify ctx iV")
  note m = ShouldVerify_mask [OF Cons.prems, unfolded sv fst_conv snd_conv]
  have c: "ctr nV iV (Suc n) = ctr nV iV' n" for n
    using sv Cons.prems by (auto simp: ShouldVerify_def split: if_splits)
  have ih: "VS_kernels_out ecc c' iV' (Some k) ks
       = map_option (\<lambda>c. (c, ctr nV iV' (length ks)))
           (mloop (ShouldAbort ctx) (\<lambda>x s. Some s) (effect_kout ecc)
              (cmask (unat nV) (unat iV')) c' () (Some k) ks)"
    if "c_nVerifiers c' = nV" "ShouldAbort c' = ShouldAbort ctx" for c'
    using Cons.IH [of c' iV' "Some k"] that m(3) by simp
  show ?case
  proof (cases b)
    case True
    have step: "VS_kernels_out ecc ctx iV pPrev (k # ks) =
        (if ShouldAbort ctx then None
         else case apply_effect (effect_kout ecc pPrev k) ctx of
                None \<Rightarrow> None
              | Some c' \<Rightarrow> VS_kernels_out ecc c' iV' (Some k) ks)"
      using True by (simp add: sv kout_step split: option.splits)
    show ?thesis
    proof (cases "ShouldAbort ctx")
      case True
      then show ?thesis unfolding step by simp
    next
      case ab: False
      show ?thesis
      proof (cases "apply_effect (effect_kout ecc pPrev k) ctx")
        case None
        then show ?thesis
          unfolding step using True m(1) ab
          by (simp add: c m(4) del: ctr.simps split: option.splits)
      next
        case (Some c')
        have k: "c_nVerifiers c' = nV" "ShouldAbort c' = ShouldAbort ctx"
          using apply_effect_consts [OF Some] apply_effect_abort [OF Some] Cons.prems
          by simp_all
        show ?thesis
          unfolding step using True m(1) ab Some ih [OF k]
          by (simp add: c m(4) del: ctr.simps split: option.splits)
      qed
    qed
  next
    case False
    show ?thesis
      using False m(1) Cons.prems
      by (simp add: sv c m(4) ih del: ctr.simps split: option.splits)
  qed
qed

lemma ctr_mask:
  assumes "iV < nV"
  shows "ctr nV iV n < nV
       \<and> cmask (unat nV) (unat (ctr nV iV n)) = (\<lambda>j. cmask (unat nV) (unat iV) (j + n))"
  using assms
proof (induction n arbitrary: iV)
  case 0
  then show ?case by simp
next
  case (Suc n)
  define ctx :: "unit Context" where
    "ctx = \<lparr>c_Sigma = (), c_Fee = AmountBig_zero, c_Coinbase = AmountBig_zero,
            c_Height = \<lparr>m_Min = 0, m_Max = 0\<rparr>, c_bBlockMode = False,
            c_nVerifiers = nV, c_iVerifier = 0, c_pAbort = None\<rparr>"
  have nv: "c_nVerifiers ctx = nV" by (simp add: ctx_def)
  note m = ShouldVerify_mask [OF nv Suc.prems]
  define iV' where "iV' = snd (ShouldVerify ctx iV)"
  have e: "(if iV \<noteq> 0 then iV - 1 else nV - 1) = iV'"
    by (simp add: iV'_def ShouldVerify_def nv)
  have "ctr nV iV' n < nV
       \<and> cmask (unat nV) (unat (ctr nV iV' n)) = (\<lambda>j. cmask (unat nV) (unat iV') (j + n))"
    using Suc.IH [of iV'] m(3) by (simp add: iV'_def)
  moreover have "cmask (unat nV) (unat iV') (j + n) = cmask (unat nV) (unat iV) (j + Suc n)" for j
    using fun_cong [OF m(4), of "j + n"] by (simp add: iV'_def)
  ultimately show ?case
    by (simp add: e)
qed

lemma mloop_consts_aux:
  "mloop ab pre eff sel c s pPrev xs = Some c' \<Longrightarrow>
     c_nVerifiers c' = c_nVerifiers c \<and> c_iVerifier c' = c_iVerifier c
     \<and> c_pAbort c' = c_pAbort c \<and> c_bBlockMode c' = c_bBlockMode c"
proof (induction xs arbitrary: sel c s pPrev)
  case Nil
  then show ?case by simp
next
  case (Cons x xs)
  from Cons.prems obtain s' where ab: "\<not> ab" and s': "pre x s = Some s'"
    by (auto split: if_splits option.splits)
  show ?case
  proof (cases "sel 0")
    case True
    with Cons.prems ab s' obtain c1 where
      a: "apply_effect (eff pPrev x) c = Some c1"
      and l: "mloop ab pre eff (\<lambda>j. sel (Suc j)) c1 s' (Some x) xs = Some c'"
      by (auto split: option.splits)
    show ?thesis
      using Cons.IH [OF l] apply_effect_consts [OF a] by simp
  next
    case False
    with Cons.prems ab s' have
      l: "mloop ab pre eff (\<lambda>j. sel (Suc j)) c s' (Some x) xs = Some c'"
      by simp
    show ?thesis using Cons.IH [OF l] .
  qed
qed

lemma mloop_consts:
  assumes "mloop ab pre eff sel c s pPrev xs = Some c'"
  shows "c_nVerifiers c' = c_nVerifiers c" "c_iVerifier c' = c_iVerifier c"
    "c_pAbort c' = c_pAbort c" "c_bBlockMode c' = c_bBlockMode c"
    "ShouldAbort c' = ShouldAbort c"
  using mloop_consts_aux [OF assms] by (simp_all add: ShouldAbort_def)

lemma case_map_pair:
  "(case map_option (\<lambda>c. (c, i)) m of None \<Rightarrow> None | Some (c, iV) \<Rightarrow> K c iV)
     = Option.bind m (\<lambda>c. K c i)"
  by (cases m) simp_all

lemma neg_Sigma_consts [simp]:
  "c_nVerifiers (neg_Sigma c) = c_nVerifiers c"
  "c_iVerifier (neg_Sigma c) = c_iVerifier c"
  "c_pAbort (neg_Sigma c) = c_pAbort c"
  "c_bBlockMode (neg_Sigma c) = c_bBlockMode c"
  "c_Height (neg_Sigma c) = c_Height c"
  "ShouldAbort (neg_Sigma c) = ShouldAbort c"
  by (simp_all add: neg_Sigma_def)

lemma VS_eq_VSm:
  assumes lt: "c_iVerifier ctx < c_nVerifiers ctx"
  shows "ValidateAndSummarize ecc rules ctx txb r
       = VSm ecc rules (ShouldAbort ctx) (c_bBlockMode ctx)
           (cmask (unat (c_nVerifiers ctx)) (unat (c_iVerifier ctx))) ctx txb r"
proof (cases "IsEmpty (c_Height ctx)")
  case True
  then show ?thesis
    by (simp add: ValidateAndSummarize_def VSm_def check_height_def Let_def)
next
  case ne: False
  define nV where "nV = c_nVerifiers ctx"
  define iV0 where "iV0 = c_iVerifier ctx"
  define ab where "ab = ShouldAbort ctx"
  define bm where "bm = c_bBlockMode ctx"
  define sel where "sel = cmask (unat nV) (unat iV0)"
  define L1 where "L1 = length (m_pUtxoIn r)"
  define L2 where "L2 = length (m_pKernelIn r)"
  define L3 where "L3 = length (m_pUtxoOut r)"
  define L4 where "L4 = length (m_pKernelOut r)"
  define off :: "'a effect" where
    "off = Some (G_mul ecc (m_Offset txb), AmountBig_zero, AmountBig_zero, None)"
  have lt0: "iV0 < nV" using lt by (simp add: nV_def iV0_def)
  then have nz: "nV \<noteq> 0" by (auto simp: word_less_nat_alt)
  define T4 where "T4 = (\<lambda>(c::'a Context) (iV::u32).
      let c = (if fst (ShouldVerify c iV)
               then c\<lparr>c_Sigma := c_Sigma c + G_mul ecc (m_Offset txb)\<rparr> else c)
      in if IsEmpty (c_Height c) then None else Some c)"
  define T3 where "T3 = (\<lambda>c iV.
      case VS_kernels_out ecc c iV None (m_pKernelOut r) of
        None \<Rightarrow> None | Some (c, iV) \<Rightarrow> T4 c iV)"
  define T2 where "T2 = (\<lambda>c iV.
      case VS_outputs ecc rules (neg_Sigma c) iV None (m_pUtxoOut r) of
        None \<Rightarrow> None | Some (c, iV) \<Rightarrow> T3 c iV)"
  define T1 where "T1 = (\<lambda>c iV.
      case VS_kernels_in ecc c iV None (m_pKernelIn r) (m_pKernelOut r) of
        None \<Rightarrow> None | Some (c, iV) \<Rightarrow> T2 c iV)"
  define M4 where "M4 = (\<lambda>c. Option.bind (if sel (L1 + L2 + L3 + L4)
                   then apply_effect off c else Some c) check_height)"
  define M3 where "M3 = (\<lambda>c. Option.bind
      (mloop ab (\<lambda>x s. Some s) (effect_kout ecc) (\<lambda>j. sel (j + (L1 + L2 + L3)))
         c () None (m_pKernelOut r)) M4)"
  define M2 where "M2 = (\<lambda>c. Option.bind
      (mloop ab (\<lambda>x s. Some s) (effect_out ecc rules bm) (\<lambda>j. sel (j + (L1 + L2)))
         (neg_Sigma c) () None (m_pUtxoOut r)) M3)"
  define M1 where "M1 = (\<lambda>c. Option.bind
      (mloop ab (locate_kernel_out ecc) (effect_kin ecc) (\<lambda>j. sel (j + L1))
         c (m_pKernelOut r) None (m_pKernelIn r)) M2)"
  have S4: "T4 c iV = M4 c"
    if "c_nVerifiers c = nV" "iV < nV" "cmask (unat nV) (unat iV) = (\<lambda>j. sel (j + (L1 + L2 + L3 + L4)))"
    for c iV
  proof -
    have "fst (ShouldVerify c iV) = sel (L1 + L2 + L3 + L4)"
      using ShouldVerify_mask(1) [OF that(1,2)] fun_cong [OF that(3), of 0] by simp
    then show ?thesis
      by (simp add: T4_def M4_def off_def apply_effect_def AmountBig_add_zero check_height_def Let_def)
  qed
  have S3: "T3 c iV = M3 c"
    if "c_nVerifiers c = nV" "iV < nV" "ShouldAbort c = ab"
      "cmask (unat nV) (unat iV) = (\<lambda>j. sel (j + (L1 + L2 + L3)))"
    for c iV
  proof -
    have "T3 c iV = Option.bind
        (mloop ab (\<lambda>x s. Some s) (effect_kout ecc) (\<lambda>j. sel (j + (L1 + L2 + L3)))
           c () None (m_pKernelOut r)) (\<lambda>c. T4 c (ctr nV iV L4))"
      unfolding T3_def VS_kernels_out_mloop [OF that(1,2)] case_map_pair that(3,4) L4_def ..
    also have "\<dots> = M3 c"
      unfolding M3_def
    proof (rule Option.bind_cong [OF refl])
      fix c' assume "mloop ab (\<lambda>x s. Some s) (effect_kout ecc) (\<lambda>j. sel (j + (L1 + L2 + L3)))
           c () None (m_pKernelOut r) = Some c'"
      note k = mloop_consts [OF this]
      have "cmask (unat nV) (unat (ctr nV iV L4)) = (\<lambda>j. sel (j + (L1 + L2 + L3 + L4)))"
        using ctr_mask [OF that(2), of L4] fun_cong [OF that(4)]
        by (simp add: fun_eq_iff add.assoc add.commute add.left_commute)
      then show "T4 c' (ctr nV iV L4) = M4 c'"
        using S4 [of c' "ctr nV iV L4"] k that ctr_mask [OF that(2), of L4] by simp
    qed
    finally show ?thesis .
  qed
  have S2: "T2 c iV = M2 c"
    if "c_nVerifiers c = nV" "iV < nV" "ShouldAbort c = ab" "c_bBlockMode c = bm"
      "cmask (unat nV) (unat iV) = (\<lambda>j. sel (j + (L1 + L2)))"
    for c iV
  proof -
    have q: "c_nVerifiers (neg_Sigma c) = nV" "c_bBlockMode (neg_Sigma c) = bm"
      using that by simp_all
    have "T2 c iV = Option.bind
        (mloop ab (\<lambda>x s. Some s) (effect_out ecc rules bm) (\<lambda>j. sel (j + (L1 + L2)))
           (neg_Sigma c) () None (m_pUtxoOut r)) (\<lambda>c. T3 c (ctr nV iV L3))"
      unfolding T2_def VS_outputs_mloop [OF q(1) that(2) q(2)] case_map_pair
        neg_Sigma_consts that(3,5) L3_def ..
    also have "\<dots> = M2 c"
      unfolding M2_def
    proof (rule Option.bind_cong [OF refl])
      fix c' assume "mloop ab (\<lambda>x s. Some s) (effect_out ecc rules bm) (\<lambda>j. sel (j + (L1 + L2)))
           (neg_Sigma c) () None (m_pUtxoOut r) = Some c'"
      note k = mloop_consts [OF this]
      have "cmask (unat nV) (unat (ctr nV iV L3)) = (\<lambda>j. sel (j + (L1 + L2 + L3)))"
        using ctr_mask [OF that(2), of L3] fun_cong [OF that(5)]
        by (simp add: fun_eq_iff add.assoc add.commute add.left_commute)
      then show "T3 c' (ctr nV iV L3) = M3 c'"
        using S3 [of c' "ctr nV iV L3"] k that ctr_mask [OF that(2), of L3] by simp
    qed
    finally show ?thesis .
  qed
  have S1: "T1 c iV = M1 c"
    if "c_nVerifiers c = nV" "iV < nV" "ShouldAbort c = ab" "c_bBlockMode c = bm"
      "cmask (unat nV) (unat iV) = (\<lambda>j. sel (j + L1))"
    for c iV
  proof -
    have "T1 c iV = Option.bind
        (mloop ab (locate_kernel_out ecc) (effect_kin ecc) (\<lambda>j. sel (j + L1))
           c (m_pKernelOut r) None (m_pKernelIn r)) (\<lambda>c. T2 c (ctr nV iV L2))"
      unfolding T1_def VS_kernels_in_mloop [OF that(1,2)] case_map_pair that(3,5) L2_def ..
    also have "\<dots> = M1 c"
      unfolding M1_def
    proof (rule Option.bind_cong [OF refl])
      fix c' assume "mloop ab (locate_kernel_out ecc) (effect_kin ecc) (\<lambda>j. sel (j + L1))
           c (m_pKernelOut r) None (m_pKernelIn r) = Some c'"
      note k = mloop_consts [OF this]
      have "cmask (unat nV) (unat (ctr nV iV L2)) = (\<lambda>j. sel (j + (L1 + L2)))"
        using ctr_mask [OF that(2), of L2] fun_cong [OF that(5)]
        by (simp add: fun_eq_iff add.assoc add.commute add.left_commute)
      then show "T2 c' (ctr nV iV L2) = M2 c'"
        using S2 [of c' "ctr nV iV L2"] k that ctr_mask [OF that(2), of L2] by simp
    qed
    finally show ?thesis .
  qed
  have c0: "c_nVerifiers (neg_Sigma ctx) = nV" "ShouldAbort (neg_Sigma ctx) = ab"
    by (simp_all add: nV_def ab_def)
  have "ValidateAndSummarize ecc rules ctx txb r
      = (case VS_inputs ecc (neg_Sigma ctx) iV0 None (m_pUtxoIn r) of
           None \<Rightarrow> None | Some (c, iV) \<Rightarrow> T1 c iV)"
    unfolding ValidateAndSummarize_def T1_def T2_def T3_def T4_def Let_def
    using ne nz by (simp add: nV_def iV0_def)
  also have "\<dots> = Option.bind
        (mloop ab (\<lambda>x s. Some s) (effect_in ecc) sel (neg_Sigma ctx) () None (m_pUtxoIn r))
        (\<lambda>c. T1 c (ctr nV iV0 L1))"
    unfolding VS_inputs_mloop [OF c0(1) lt0] case_map_pair c0(2) L1_def sel_def ..
  also have "\<dots> = Option.bind
        (mloop ab (\<lambda>x s. Some s) (effect_in ecc) sel (neg_Sigma ctx) () None (m_pUtxoIn r)) M1"
  proof (rule Option.bind_cong [OF refl])
    fix c' assume "mloop ab (\<lambda>x s. Some s) (effect_in ecc) sel (neg_Sigma ctx) () None (m_pUtxoIn r)
         = Some c'"
    note k = mloop_consts [OF this]
    have "cmask (unat nV) (unat (ctr nV iV0 L1)) = (\<lambda>j. sel (j + L1))"
      using ctr_mask [OF lt0, of L1] by (simp add: sel_def)
    then show "T1 c' (ctr nV iV0 L1) = M1 c'"
      using S1 [of c' "ctr nV iV0 L1"] k ctr_mask [OF lt0, of L1]
      by (simp add: nV_def ab_def bm_def)
  qed
  also have "\<dots> = VSm ecc rules ab bm sel ctx txb r"
    unfolding VSm_def M1_def M2_def M3_def M4_def off_def Let_def L1_def L2_def L3_def L4_def
    using ne by (simp add: check_height_def add.assoc)
  finally show ?thesis
    by (simp add: ab_def bm_def sel_def nV_def iV0_def)
qed

lemma IsEmpty_Intersect:
  "IsEmpty (Intersect x y) \<longleftrightarrow>
     m_Max x < m_Min x \<or> m_Max y < m_Min x \<or> m_Max x < m_Min y \<or> m_Max y < m_Min y"
  by (auto simp: IsEmpty_def Intersect_def less_max_iff_disj min_less_iff_disj)

lemma Intersect_sel [simp]:
  "m_Min (Intersect x y) = max (m_Min x) (m_Min y)"
  "m_Max (Intersect x y) = min (m_Max x) (m_Max y)"
  by (simp_all add: Intersect_def)

lemma Intersect_assoc: "Intersect (Intersect x y) z = Intersect x (Intersect y z)"
  by (simp add: Intersect_def max.assoc min.assoc)

lemma Intersect_commute: "Intersect x y = Intersect y x"
  by (simp add: Intersect_def max.commute min.commute)

lemma Intersect_left_commute: "Intersect x (Intersect y z) = Intersect y (Intersect x z)"
  by (simp add: Intersect_def max.left_commute min.left_commute)

lemma Intersect_idem [simp]: "Intersect x x = x"
  by (simp add: Intersect_def)

lemma AmountBig_add_left_commute:
  "AmountBig_add a (AmountBig_add b c) = AmountBig_add b (AmountBig_add a c)"
  by (metis AmountBig_add_assoc AmountBig_add_commute)

lemmas AmountBig_ac = AmountBig_add_assoc AmountBig_add_commute AmountBig_add_left_commute

lemma Merge_eq:
  "Merge a b =
     (if c_bBlockMode a \<noteq> c_bBlockMode b then None
      else if IsEmpty (Intersect (c_Height a) (c_Height b)) then None
      else Some (a\<lparr>c_Height := (if c_bBlockMode a then c_Height a
                                 else Intersect (c_Height a) (c_Height b)),
                   c_Sigma := c_Sigma a + c_Sigma b,
                   c_Fee := AmountBig_add (c_Fee a) (c_Fee b),
                   c_Coinbase := AmountBig_add (c_Coinbase a) (c_Coinbase b)\<rparr>))"
  by (simp add: Merge_def HandleElementHeight_def Let_def)

lemma apply_effect_eq:
  "apply_effect (Some (s, f, cb, hro)) c =
     (if (case hro of None \<Rightarrow> False | Some hr \<Rightarrow> IsEmpty (Intersect (c_Height c) hr)) then None
      else Some (c\<lparr>c_Height := (case hro of
                                  None \<Rightarrow> c_Height c
                                | Some hr \<Rightarrow> if c_bBlockMode c then c_Height c
                                             else Intersect (c_Height c) hr),
                   c_Sigma := c_Sigma c + s,
                   c_Fee := AmountBig_add (c_Fee c) f,
                   c_Coinbase := AmountBig_add (c_Coinbase c) cb\<rparr>))"
  by (simp add: apply_effect_def HandleElementHeight_def Let_def split: option.splits)

lemma apply_effect_None [simp]: "apply_effect None c = None"
  by (simp add: apply_effect_def)

lemma bind_None_right [simp]: "Option.bind x (\<lambda>_. None) = None"
  by (cases x) simp_all

lemma apply_effect_None_fun: "apply_effect None = (\<lambda>_. None)"
  by (rule ext) simp

lemma mcompat_apply_left: "mcompat (apply_effect e) Some (apply_effect e)"
proof (cases e)
  case None
  then show ?thesis by (simp add: mcompat_def merge_opt_def apply_effect_None_fun)
next
  case (Some t)
  obtain s f cb hro where t: "t = (s, f, cb, hro)" by (cases t)
  show ?thesis
    unfolding mcompat_def Some t
    apply (intro allI impI conjI)
     apply (auto simp add: merge_opt_def shard_rel_def Merge_eq apply_effect_eq IsEmpty_def
        less_max_iff_disj min_less_iff_disj Intersect_assoc Intersect_commute
        Intersect_left_commute AmountBig_ac ac_simps split: option.splits if_splits)
    done
qed

lemma mcompat_apply_right: "mcompat Some (apply_effect e) (apply_effect e)"
proof (cases e)
  case None
  then show ?thesis by (simp add: mcompat_def merge_opt_def apply_effect_None_fun)
next
  case (Some t)
  obtain s f cb hro where t: "t = (s, f, cb, hro)" by (cases t)
  show ?thesis
    unfolding mcompat_def Some t
    apply (intro allI impI conjI)
     apply (auto simp add: merge_opt_def shard_rel_def Merge_eq apply_effect_eq IsEmpty_def
        less_max_iff_disj min_less_iff_disj Intersect_assoc Intersect_commute
        Intersect_left_commute AmountBig_ac ac_simps split: option.splits if_splits)
    done
qed

lemma mcompat_id: "mcompat Some Some Some"
  by (simp add: mcompat_def merge_opt_def)

lemma mcompat_none: "mcompat (\<lambda>_. None) (\<lambda>_. None) (\<lambda>_. None)"
  by (simp add: mcompat_def merge_opt_def)

lemma mcompat_bind:
  assumes "mcompat f1 f2 f" "mcompat g1 g2 g"
  shows "mcompat (\<lambda>x. Option.bind (f1 x) g1) (\<lambda>x. Option.bind (f2 x) g2)
           (\<lambda>x. Option.bind (f x) g)"
  unfolding mcompat_def
proof (intro allI impI conjI)
  fix a b :: "'a Context"
  assume r: "shard_rel a b"
  from assms(1) r have f: "merge_opt (f1 a) (f2 b) = Option.bind (Merge a b) f"
    and fr: "\<And>a' b'. f1 a = Some a' \<Longrightarrow> f2 b = Some b' \<Longrightarrow> shard_rel a' b'"
    by (auto simp: mcompat_def)
  show "merge_opt (Option.bind (f1 a) g1) (Option.bind (f2 b) g2)
      = Option.bind (Merge a b) (\<lambda>x. Option.bind (f x) g)"
  proof (cases "f1 a")
    case None
    with f have "Option.bind (Merge a b) f = None" by (simp add: merge_opt_def)
    then have "Option.bind (Option.bind (Merge a b) f) g = None" by simp
    then show ?thesis using None by (simp add: merge_opt_def)
  next
    case a': (Some a')
    show ?thesis
    proof (cases "f2 b")
      case None
      with f a' have "Option.bind (Merge a b) f = None" by (simp add: merge_opt_def)
      then have "Option.bind (Option.bind (Merge a b) f) g = None" by simp
      then show ?thesis using None a'
        by (cases "g1 a'") (simp_all add: merge_opt_def)
    next
      case b': (Some b')
      have r': "shard_rel a' b'" using fr [OF a' b'] .
      from assms(2) r' have "merge_opt (g1 a') (g2 b') = Option.bind (Merge a' b') g"
        by (auto simp: mcompat_def)
      moreover have "Merge a' b' = Option.bind (Merge a b) f"
        using f a' b' by (simp add: merge_opt_def)
      ultimately show ?thesis using a' b' by simp
    qed
  qed
next
  fix a b a' b' :: "'a Context"
  assume r: "shard_rel a b"
    and 1: "Option.bind (f1 a) g1 = Some a'" and 2: "Option.bind (f2 b) g2 = Some b'"
  from 1 obtain a1 where a1: "f1 a = Some a1" "g1 a1 = Some a'"
    by (auto simp: bind_eq_Some_conv)
  from 2 obtain b1 where b1: "f2 b = Some b1" "g2 b1 = Some b'"
    by (auto simp: bind_eq_Some_conv)
  from assms(1) r a1(1) b1(1) have "shard_rel a1 b1" by (auto simp: mcompat_def)
  with assms(2) a1(2) b1(2) show "shard_rel a' b'" by (auto simp: mcompat_def)
qed

lemma Merge_neg:
  "Merge (neg_Sigma a) (neg_Sigma b) = map_option neg_Sigma (Merge a b)"
  by (simp add: Merge_eq neg_Sigma_def)

lemma mcompat_neg:
  assumes "mcompat f1 f2 f"
  shows "mcompat (\<lambda>x. f1 (neg_Sigma x)) (\<lambda>x. f2 (neg_Sigma x)) (\<lambda>x. f (neg_Sigma x))"
  unfolding mcompat_def
proof (intro allI impI conjI)
  fix a b :: "'a Context"
  assume r: "shard_rel a b"
  then have r': "shard_rel (neg_Sigma a) (neg_Sigma b)" by (simp add: shard_rel_def)
  from assms r' have "merge_opt (f1 (neg_Sigma a)) (f2 (neg_Sigma b))
      = Option.bind (Merge (neg_Sigma a) (neg_Sigma b)) f"
    by (auto simp: mcompat_def)
  then show "merge_opt (f1 (neg_Sigma a)) (f2 (neg_Sigma b))
      = Option.bind (Merge a b) (\<lambda>x. f (neg_Sigma x))"
    by (cases "Merge a b") (simp_all add: Merge_neg)
next
  fix a b a' b' :: "'a Context"
  assume r: "shard_rel a b"
    and 1: "f1 (neg_Sigma a) = Some a'" and 2: "f2 (neg_Sigma b) = Some b'"
  from r have r': "shard_rel (neg_Sigma a) (neg_Sigma b)" by (simp add: shard_rel_def)
  with assms 1 2 show "shard_rel a' b'" by (auto simp: mcompat_def)
qed

lemma mcompat_check: "mcompat check_height check_height check_height"
  unfolding mcompat_def
  by (auto simp: check_height_def merge_opt_def Merge_eq shard_rel_def IsEmpty_Intersect
      IsEmpty_def less_max_iff_disj min_less_iff_disj
      split: if_splits)

lemma case_option_bind:
  "(case x of None \<Rightarrow> None | Some y \<Rightarrow> f y) = Option.bind x f"
  by (cases x) simp_all

lemma mcompat_mloop:
  assumes "\<And>j. \<not> (m1 j \<and> m2 j)"
  shows "mcompat (\<lambda>c. mloop ab pre eff m1 c s pPrev xs)
           (\<lambda>c. mloop ab pre eff m2 c s pPrev xs)
           (\<lambda>c. mloop ab pre eff (\<lambda>j. m1 j \<or> m2 j) c s pPrev xs)"
  using assms
proof (induction xs arbitrary: m1 m2 s pPrev)
  case Nil
  show ?case by (simp add: mcompat_id)
next
  case (Cons x xs)
  show ?case
  proof (cases ab)
    case True
    then show ?thesis by (simp add: mcompat_none)
  next
    case ab: False
    show ?thesis
    proof (cases "pre x s")
      case None
      then show ?thesis using ab by (simp add: mcompat_none)
    next
      case (Some s')
      have d: "\<not> ((\<lambda>j. m1 (Suc j)) j \<and> (\<lambda>j. m2 (Suc j)) j)" for j
        using Cons.prems [of "Suc j"] by simp
      note ih = Cons.IH [of "\<lambda>j. m1 (Suc j)" "\<lambda>j. m2 (Suc j)" s' "Some x", OF d]
      consider (l) "m1 0" "\<not> m2 0" | (r) "\<not> m1 0" "m2 0" | (n) "\<not> m1 0" "\<not> m2 0"
        using Cons.prems [of 0] by auto
      then show ?thesis
      proof cases
        case l
        have "mcompat
          (\<lambda>c. Option.bind (apply_effect (eff pPrev x) c)
                 (\<lambda>c. mloop ab pre eff (\<lambda>j. m1 (Suc j)) c s' (Some x) xs))
          (\<lambda>c. Option.bind (Some c)
                 (\<lambda>c. mloop ab pre eff (\<lambda>j. m2 (Suc j)) c s' (Some x) xs))
          (\<lambda>c. Option.bind (apply_effect (eff pPrev x) c)
                 (\<lambda>c. mloop ab pre eff (\<lambda>j. m1 (Suc j) \<or> m2 (Suc j)) c s' (Some x) xs))"
          by (rule mcompat_bind [OF mcompat_apply_left ih])
        then show ?thesis using ab Some l by (simp add: case_option_bind)
      next
        case r
        have "mcompat
          (\<lambda>c. Option.bind (Some c)
                 (\<lambda>c. mloop ab pre eff (\<lambda>j. m1 (Suc j)) c s' (Some x) xs))
          (\<lambda>c. Option.bind (apply_effect (eff pPrev x) c)
                 (\<lambda>c. mloop ab pre eff (\<lambda>j. m2 (Suc j)) c s' (Some x) xs))
          (\<lambda>c. Option.bind (apply_effect (eff pPrev x) c)
                 (\<lambda>c. mloop ab pre eff (\<lambda>j. m1 (Suc j) \<or> m2 (Suc j)) c s' (Some x) xs))"
          by (rule mcompat_bind [OF mcompat_apply_right ih])
        then show ?thesis using ab Some r by (simp add: case_option_bind)
      next
        case n
        show ?thesis using ab Some n ih by simp
      qed
    qed
  qed
qed

lemma mcompat_fin:
  assumes "\<not> (p \<and> q)"
  shows "mcompat (\<lambda>c. if p then apply_effect e c else Some c)
           (\<lambda>c. if q then apply_effect e c else Some c)
           (\<lambda>c. if p \<or> q then apply_effect e c else Some c)"
  using assms mcompat_apply_left [of e] mcompat_apply_right [of e] mcompat_id
  by (cases p; cases q) simp_all

lemma mcompat_VSm:
  assumes d0: "\<forall>j. \<not> (m1 j \<and> m2 j)"
  shows "mcompat (\<lambda>c. VSm ecc rules ab bm m1 c txb r)
           (\<lambda>c. VSm ecc rules ab bm m2 c txb r)
           (\<lambda>c. VSm ecc rules ab bm (\<lambda>j. m1 j \<or> m2 j) c txb r)"
proof -
  have d: "\<not> (m1 j \<and> m2 j)" for j using d0 by simp
  have dd: "\<not> ((\<lambda>j. m1 (j + n)) j \<and> (\<lambda>j. m2 (j + n)) j)" for n j
    using d [of "j + n"] by simp
  note l1 = mcompat_neg [OF mcompat_mloop [of m1 m2, OF d]]
  note l2 = mcompat_mloop [of "\<lambda>j. m1 (j + n)" "\<lambda>j. m2 (j + n)" for n, OF dd]
  note l3 = mcompat_neg [OF l2]
  note fin = mcompat_fin [of "m1 n" "m2 n" for n, OF d]
  show ?thesis
    unfolding VSm_def Let_def
    apply (rule mcompat_bind [OF mcompat_check])
    apply (rule mcompat_bind [OF l1])
    apply (rule mcompat_bind [OF l2])
    apply (rule mcompat_bind [OF l3])
    apply (rule mcompat_bind [OF l2])
    apply (rule mcompat_bind [OF fin mcompat_check])
    done
qed

lemma set_verifier_sel [simp]:
  "c_nVerifiers (set_verifier n i c) = n"
  "c_iVerifier (set_verifier n i c) = i"
  "c_Sigma (set_verifier n i c) = c_Sigma c"
  "c_Fee (set_verifier n i c) = c_Fee c"
  "c_Coinbase (set_verifier n i c) = c_Coinbase c"
  "c_Height (set_verifier n i c) = c_Height c"
  "c_bBlockMode (set_verifier n i c) = c_bBlockMode c"
  "c_pAbort (set_verifier n i c) = c_pAbort c"
  "ShouldAbort (set_verifier n i c) = ShouldAbort c"
  by (simp_all add: set_verifier_def ShouldAbort_def)

lemma apply_effect_set_verifier:
  "apply_effect e (set_verifier n i c) = map_option (set_verifier n i) (apply_effect e c)"
  by (simp add: apply_effect_def set_verifier_def HandleElementHeight_def Let_def
      split: option.splits)

lemma mloop_set_verifier:
  "mloop ab pre eff sel (set_verifier n i c) s pPrev xs
     = map_option (set_verifier n i) (mloop ab pre eff sel c s pPrev xs)"
proof (induction xs arbitrary: sel c s pPrev)
  case Nil
  show ?case by simp
next
  case (Cons x xs)
  show ?case
  proof (cases ab)
    case True
    then show ?thesis by simp
  next
    case False
    then show ?thesis
      using Cons.IH [where ?sel = "\<lambda>j. sel (Suc j)"]
      by (simp add: apply_effect_set_verifier split: option.splits)
  qed
qed

lemma neg_Sigma_set_verifier:
  "neg_Sigma (set_verifier n i c) = set_verifier n i (neg_Sigma c)"
  by (simp add: neg_Sigma_def set_verifier_def)

lemma check_height_set_verifier:
  "check_height (set_verifier n i c) = map_option (set_verifier n i) (check_height c)"
  by (simp add: check_height_def)

lemma bind_map_set_verifier:
  "Option.bind (map_option g x) f = Option.bind x (\<lambda>y. f (g y))"
  by (cases x) simp_all

lemma map_bind_set_verifier:
  "map_option g (Option.bind x f) = Option.bind x (\<lambda>y. map_option g (f y))"
  by (cases x) simp_all

lemma if_map_set_verifier:
  "(if p then apply_effect e (set_verifier n i y) else Some (set_verifier n i y))
     = map_option (set_verifier n i) (if p then apply_effect e y else Some y)"
  by (simp add: apply_effect_set_verifier)

lemma VSm_set_verifier:
  "VSm ecc rules ab bm sel (set_verifier n i c) txb r
     = map_option (set_verifier n i) (VSm ecc rules ab bm sel c txb r)"
  unfolding VSm_def Let_def
  by (simp add: check_height_set_verifier neg_Sigma_set_verifier mloop_set_verifier
      apply_effect_set_verifier bind_map_set_verifier map_bind_set_verifier
      if_map_set_verifier)

lemma shard_eq: "shard ctx N i = set_verifier (of_nat N) (of_nat i) ctx"
  by (simp add: shard_def set_verifier_def)

lemma VS_shard:
  assumes "i < N" "N < 2 ^ 32"
  shows "ValidateAndSummarize ecc rules (shard ctx N i) txb r
       = map_option (set_verifier (of_nat N) (of_nat i))
           (VSm ecc rules (ShouldAbort ctx) (c_bBlockMode ctx) (cmask N i) ctx txb r)"
proof -
  have uN: "unat (of_nat N :: u32) = N" and ui: "unat (of_nat i :: u32) = i"
    using assms by (simp_all add: unat_of_nat)
  have lt: "c_iVerifier (shard ctx N i) < c_nVerifiers (shard ctx N i)"
    using assms(1) by (simp add: shard_eq word_less_nat_alt uN ui)
  show ?thesis
    using VS_eq_VSm [OF lt, of ecc rules txb r]
    by (simp add: shard_eq uN ui VSm_set_verifier)
qed

lemma Merge_fresh:
  assumes "c_Sigma ctx = 0" "c_Fee ctx = AmountBig_zero" "c_Coinbase ctx = AmountBig_zero"
  shows "Merge (set_verifier n i ctx) (set_verifier n' i' ctx)
       = check_height (set_verifier n i ctx)"
  using assms
  by (cases ctx)
    (simp add: Merge_eq check_height_def set_verifier_def AmountBig_zero_add IsEmpty_Intersect
      IsEmpty_def)

lemma VSm_check:
  "Option.bind (check_height c) (\<lambda>c. VSm ecc rules ab bm sel c txb r)
     = VSm ecc rules ab bm sel c txb r"
  by (simp add: VSm_def check_height_def Let_def)

lemma merge_shards:
  assumes fresh: "c_Sigma ctx = 0" "c_Fee ctx = AmountBig_zero" "c_Coinbase ctx = AmountBig_zero"
    and d: "\<forall>j. \<not> (m1 j \<and> m2 j)"
  shows "merge_opt (map_option (set_verifier n i) (VSm ecc rules ab bm m1 ctx txb r))
           (map_option (set_verifier n' i') (VSm ecc rules ab bm m2 ctx txb r))
       = map_option (set_verifier n i) (VSm ecc rules ab bm (\<lambda>j. m1 j \<or> m2 j) ctx txb r)"
proof -
  have r: "shard_rel (set_verifier n i ctx) (set_verifier n' i' ctx)"
    by (simp add: shard_rel_def)
  have "merge_opt (VSm ecc rules ab bm m1 (set_verifier n i ctx) txb r)
          (VSm ecc rules ab bm m2 (set_verifier n' i' ctx) txb r)
      = Option.bind (Merge (set_verifier n i ctx) (set_verifier n' i' ctx))
          (\<lambda>c. VSm ecc rules ab bm (\<lambda>j. m1 j \<or> m2 j) c txb r)"
    using mcompat_VSm [OF d, where ecc = ecc and rules = rules and ab = ab and bm = bm
        and txb = txb and r = r] r
    unfolding mcompat_def by blast
  then show ?thesis
    by (simp only: Merge_fresh [OF fresh] VSm_check VSm_set_verifier)
qed

lemma fold_shards:
  assumes fresh: "c_Sigma ctx = 0" "c_Fee ctx = AmountBig_zero" "c_Coinbase ctx = AmountBig_zero"
    and N: "N < 2 ^ 32"
    and js: "distinct js" "\<forall>j\<in>set js. j < N \<and> j \<notin> S"
  shows "foldl merge_opt
           (map_option (set_verifier n i)
              (VSm ecc rules (ShouldAbort ctx) (c_bBlockMode ctx) (\<lambda>k. k mod N \<in> S) ctx txb r))
           (map (\<lambda>j. ValidateAndSummarize ecc rules (shard ctx N j) txb r) js)
       = map_option (set_verifier n i)
           (VSm ecc rules (ShouldAbort ctx) (c_bBlockMode ctx)
              (\<lambda>k. k mod N \<in> S \<union> set js) ctx txb r)"
  using js
proof (induction js arbitrary: S)
  case Nil
  show ?case by simp
next
  case (Cons j js)
  have jN: "j < N" and jS: "j \<notin> S" using Cons.prems by simp_all
  have d: "\<forall>k. \<not> (k mod N \<in> S \<and> cmask N j k)"
    using jS by (auto simp: cmask_def)
  have u: "(\<lambda>k. k mod N \<in> S \<or> cmask N j k) = (\<lambda>k. k mod N \<in> insert j S)"
    by (auto simp: cmask_def fun_eq_iff)
  have step: "merge_opt
           (map_option (set_verifier n i)
              (VSm ecc rules (ShouldAbort ctx) (c_bBlockMode ctx) (\<lambda>k. k mod N \<in> S) ctx txb r))
           (ValidateAndSummarize ecc rules (shard ctx N j) txb r)
       = map_option (set_verifier n i)
           (VSm ecc rules (ShouldAbort ctx) (c_bBlockMode ctx)
              (\<lambda>k. k mod N \<in> insert j S) ctx txb r)"
    unfolding VS_shard [OF jN N] merge_shards [OF fresh d] u ..
  have p: "distinct js" "\<forall>j'\<in>set js. j' < N \<and> j' \<notin> insert j S"
    using Cons.prems by auto
  have e: "insert j S \<union> set js = S \<union> set (j # js)" by auto
  show ?case
    using Cons.IH [OF p] by (simp add: step e)
qed

lemma summary_set_verifier [simp]: "summary (set_verifier n i c) = summary c"
  by (simp add: summary_def)

lemma ctx2_single_run:
  "map_option summary (ValidateAndSummarize ecc0 rules0 (shard ctx2 1 0) txb2 rd2)
     = Some (2007, \<lparr>Lo = 10, Hi = 0\<rparr>, \<lparr>Lo = 0, Hi = 0\<rparr>, \<lparr>m_Min = 1, m_Max = 9\<rparr>)"
  by code_simp

text \<open>
  C2.  For every number \<open>N\<close> of verifiers from 1 up (so for every \<open>N\<close> from 1 to 8; the
  counters are 32-bit, hence \<open>N < 2 ^ 32\<close>), every order \<open>ixs\<close> in which the verifier
  indices 0 to \<open>N - 1\<close> are run and merged, and every stream: starting from a context whose
  sum, fee and coinbase are zero, as \<open>Reset\<close> leaves them, the \<open>N\<close> runs of
  \<open>ValidateAndSummarize\<close> combined with \<open>Merge\<close> accept exactly when the run of a single
  context with one verifier accepts, and then with the same sum of commitments, the same
  fee, the same coinbase and the same height range.
\<close>

theorem sharded_validation_equivalent:
  assumes "1 \<le> N" "N < 2 ^ 32" "distinct ixs" "set ixs = {0..<N}"
    and "c_Sigma ctx = 0" "c_Fee ctx = AmountBig_zero" "c_Coinbase ctx = AmountBig_zero"
  shows "map_option summary (ValidateSharded ecc rules ctx N ixs txb r)
       = map_option summary (ValidateAndSummarize ecc rules (shard ctx 1 0) txb r)"
proof -
  from assms(1,4) obtain i0 js where ixs: "ixs = i0 # js" by (cases ixs) auto
  have i0: "i0 < N" using assms(4) ixs by auto
  have js: "distinct js" "\<forall>j\<in>set js. j < N \<and> j \<notin> {i0}"
    using assms(3,4) ixs by auto
  have m0: "cmask N i0 = (\<lambda>k. k mod N \<in> {i0})"
    by (auto simp: cmask_def fun_eq_iff)
  have all: "(\<lambda>k. k mod N \<in> {i0} \<union> set js) = (\<lambda>k. True)"
    using assms(1,4) ixs by (auto simp: fun_eq_iff)
  have one: "cmask (Suc 0) 0 = (\<lambda>k. True)"
    by (auto simp: cmask_def fun_eq_iff)
  have "ValidateSharded ecc rules ctx N ixs txb r
      = map_option (set_verifier (of_nat N) (of_nat i0))
          (VSm ecc rules (ShouldAbort ctx) (c_bBlockMode ctx) (\<lambda>k. True) ctx txb r)"
    unfolding ValidateSharded_def ixs list.map list.case VS_shard [OF i0 assms(2)] m0
      fold_shards [OF assms(5,6,7) assms(2) js] all ..
  moreover have "ValidateAndSummarize ecc rules (shard ctx 1 0) txb r
      = map_option (set_verifier (of_nat 1) (of_nat 0))
          (VSm ecc rules (ShouldAbort ctx) (c_bBlockMode ctx) (\<lambda>k. True) ctx txb r)"
    using VS_shard [of 0 1 ecc rules ctx txb r] by (simp add: one)
  ultimately show ?thesis
    by (simp add: option.map_comp comp_def)
qed

theorem sharded_validation_equivalent_witness:
  "map_option summary (ValidateSharded ecc0 rules0 ctx2 2 [1, 0] txb2 rd2)
     = Some (2007, \<lparr>Lo = 10, Hi = 0\<rparr>, \<lparr>Lo = 0, Hi = 0\<rparr>, \<lparr>m_Min = 1, m_Max = 9\<rparr>)"
proof -
  have "map_option summary (ValidateSharded ecc0 rules0 ctx2 2 [1, 0] txb2 rd2)
      = map_option summary (ValidateAndSummarize ecc0 rules0 (shard ctx2 1 0) txb2 rd2)"
    by (rule sharded_validation_equivalent) (auto simp: ctx2_def)
  then show ?thesis by (simp only: ctx2_single_run)
qed

end
